theory Spec2Isabelle
  imports Complex_Main
begin

section \<open>pingmon: values, text and constants\<close>

text \<open>
  A Python float is modelled by the rational number it denotes (all values here are finite).
  Comparison, \<open>max\<close>, multiplication by 8 and division by a power of two are exact on
  floats and are written as the exact operations. An operation that rounds (a general
  division, an addition, the conversion of a decimal string or of an integer) is written
  as the exact operation followed by \<open>rnd\<close>, the rounding of the floating-point format,
  which the definitions take as a parameter. The theorems need of it only what
  \<open>rounding\<close> states: it is monotone and leaves 0 and 1 unchanged.
\<close>

type_synonym pyfloat = rat

definition rounding :: "(rat \<Rightarrow> rat) \<Rightarrow> bool" where
  "rounding rnd \<longleftrightarrow> (\<forall>x y. x \<le> y \<longrightarrow> rnd x \<le> rnd y) \<and> rnd 0 = 0 \<and> rnd 1 = 1"

text \<open>The rounding that changes nothing: exact arithmetic.\<close>

definition exact :: "rat \<Rightarrow> rat" where
  "exact x = x"

text \<open>
  A Python \<open>str\<close> is a list of code points. A rich \<open>Text\<close> is a plain string with
  styled spans; it is modelled cell by cell, each cell a code point with the style that
  was given when it was appended (\<open>None\<close> when no style was given).
\<close>

type_synonym pystr = "nat list"
type_synonym cell = "nat \<times> string option"
type_synonym rich_text = "cell list"

definition ascii :: "string \<Rightarrow> pystr" where
  "ascii s = map of_char s"

definition Text :: "pystr \<Rightarrow> rich_text" where
  "Text s = map (\<lambda>c. (c, None)) s"

definition append_str :: "rich_text \<Rightarrow> pystr \<Rightarrow> string \<Rightarrow> rich_text" where
  "append_str t s style = t @ map (\<lambda>c. (c, Some style)) s"

definition plain :: "rich_text \<Rightarrow> pystr" where
  "plain t = map fst t"

text \<open>
  The exceptions of the model: the two that \<open>run_ping\<close> catches, two that it does not
  (the interrupt that \<open>main\<close> handles, and ValueError, the class of a decoding error),
  and the one that indexing a string can raise.
\<close>

datatype py_exc = TimeoutExpired | OSError | ValueError | KeyboardInterrupt | IndexError

definition SPARK_CHARS :: pystr where
  "SPARK_CHARS = [32, 9601, 9602, 9603, 9604, 9605, 9606, 9607, 9608]"

definition DROP_CHAR :: pystr where
  "DROP_CHAR = [9617]"

definition HISTORY_SIZE :: nat where
  "HISTORY_SIZE = 30"

definition VITALS_SPARK_SIZE :: nat where
  "VITALS_SPARK_SIZE = 10"

definition HIGH_LATENCY_MS :: pyfloat where
  "HIGH_LATENCY_MS = 100"

definition PANEL_WIDTH :: nat where
  "PANEL_WIDTH = 58"

section \<open>Quantization and sparklines\<close>

text \<open>\<open>int(x)\<close> on a float truncates toward zero.\<close>

definition py_int :: "pyfloat \<Rightarrow> int" where
  "py_int x = (if 0 \<le> x then \<lfloor>x\<rfloor> else \<lceil>x\<rceil>)"

text \<open>
  The two lines \<open>idx = int((v / max_val) * 8); idx = min(idx, 8)\<close>, which
  \<open>build_sparkline\<close> and \<open>build_vitals_sparkline\<close> share. Both call it with
  \<open>max_val\<close> at least 1, so the division is never by zero.
\<close>

definition quantize :: "(rat \<Rightarrow> rat) \<Rightarrow> pyfloat \<Rightarrow> pyfloat \<Rightarrow> int" where
  "quantize rnd v max_val = min (py_int (rnd (v / max_val) * 8)) 8"

text \<open>
  \<open>s[i]\<close> on a string: an index from \<open>-len(s)\<close> to \<open>-1\<close> counts from the end, an
  index outside \<open>-len(s) .. len(s) - 1\<close> raises IndexError.
\<close>

definition getitem :: "pystr \<Rightarrow> int \<Rightarrow> py_exc + nat" where
  "getitem s i =
     (if 0 \<le> i \<and> i < int (length s) then Inr (s ! nat i)
      else if i < 0 \<and> - int (length s) \<le> i then Inr (s ! nat (int (length s) + i))
      else Inl IndexError)"

text \<open>Lines 52 to 54 of \<open>build_sparkline\<close>: the scale of the current window.\<close>

definition latency_max_val :: "pyfloat option list \<Rightarrow> pyfloat" where
  "latency_max_val values =
     (let latencies = map the (filter (\<lambda>v. v \<noteq> None) values);
          max_val = (if latencies \<noteq> [] then fold max (tl latencies) (hd latencies) else 1)
      in max max_val 5)"

text \<open>The loop \<open>for v in values\<close> of \<open>build_sparkline\<close>, with \<open>spark\<close> as accumulator.\<close>

fun sparkline_loop ::
  "(rat \<Rightarrow> rat) \<Rightarrow> pyfloat \<Rightarrow> rich_text \<Rightarrow> pyfloat option list \<Rightarrow> py_exc + rich_text" where
  "sparkline_loop rnd max_val spark [] = Inr spark"
| "sparkline_loop rnd max_val spark (None # vs) =
     sparkline_loop rnd max_val (append_str spark DROP_CHAR ''bold red'') vs"
| "sparkline_loop rnd max_val spark (Some v # vs) =
     (case getitem SPARK_CHARS (quantize rnd v max_val) of
        Inl e \<Rightarrow> Inl e
      | Inr char \<Rightarrow>
          if v > HIGH_LATENCY_MS
          then sparkline_loop rnd max_val (append_str spark [char] ''yellow'') vs
          else sparkline_loop rnd max_val (append_str spark [char] ''cyan'') vs)"

definition build_sparkline :: "(rat \<Rightarrow> rat) \<Rightarrow> pyfloat option list \<Rightarrow> py_exc + rich_text" where
  "build_sparkline rnd history =
     (let values = history;
          max_val = latency_max_val values
      in case sparkline_loop rnd max_val [] values of
           Inl e \<Rightarrow> Inl e
         | Inr spark \<Rightarrow>
             (let pad = int HISTORY_SIZE - int (length values)
              in if pad > 0 then Inr (Text (replicate (nat pad) 32) @ spark) else Inr spark))"

text \<open>The float literals \<open>0.8\<close> and \<open>0.6\<close>, as the doubles they are read as.\<close>

definition ratio_red :: pyfloat where
  "ratio_red = 3602879701896397 / 4503599627370496"

definition ratio_yellow :: pyfloat where
  "ratio_yellow = 5404319552844595 / 9007199254740992"

fun vitals_loop ::
  "(rat \<Rightarrow> rat) \<Rightarrow> pyfloat \<Rightarrow> rich_text \<Rightarrow> pyfloat list \<Rightarrow> py_exc + rich_text" where
  "vitals_loop rnd max_val spark [] = Inr spark"
| "vitals_loop rnd max_val spark (v # vs) =
     (case getitem SPARK_CHARS (quantize rnd v max_val) of
        Inl e \<Rightarrow> Inl e
      | Inr char \<Rightarrow>
          (let ratio = (if max_val > 0 then rnd (v / max_val) else 0)
           in if ratio > ratio_red
              then vitals_loop rnd max_val (append_str spark [char] ''red'') vs
              else if ratio > ratio_yellow
              then vitals_loop rnd max_val (append_str spark [char] ''yellow'') vs
              else vitals_loop rnd max_val (append_str spark [char] ''cyan'') vs))"

definition build_vitals_sparkline ::
  "(rat \<Rightarrow> rat) \<Rightarrow> pyfloat list \<Rightarrow> pyfloat \<Rightarrow> py_exc + rich_text" where
  "build_vitals_sparkline rnd history session_max =
     (let values = history;
          max_val = max session_max 1
      in case vitals_loop rnd max_val [] values of
           Inl e \<Rightarrow> Inl e
         | Inr spark \<Rightarrow>
             (let pad = int VITALS_SPARK_SIZE - int (length values)
              in if pad > 0 then Inr (Text (replicate (nat pad) 32) @ spark) else Inr spark))"

section \<open>Number formatting\<close>

definition digit_char :: "nat \<Rightarrow> char" where
  "digit_char d = ''0123456789'' ! d"

fun show_nat :: "nat \<Rightarrow> string" where
  "show_nat n = (if n < 10 then [digit_char n] else show_nat (n div 10) @ [digit_char (n mod 10)])"

declare show_nat.simps [simp del]

text \<open>
  The nearest integer to a non-negative value, a tie going to the even neighbour: the
  rounding that Python's fixed-point formatting applies to the exact value of the float.
\<close>

definition round_half_even :: "rat \<Rightarrow> nat" where
  "round_half_even y =
     (let f = \<lfloor>y\<rfloor>; d = y - of_int f
      in nat (if d < 1 / 2 then f else if d > 1 / 2 then f + 1 else if even f then f else f + 1))"

text \<open>\<open>format(x, ".pf")\<close> for a finite \<open>x\<close>: \<open>p\<close> digits after the point, no point when \<open>p = 0\<close>.\<close>

definition format_f :: "nat \<Rightarrow> pyfloat \<Rightarrow> string" where
  "format_f p x =
     (let r = round_half_even (\<bar>x\<bar> * 10 ^ p);
          frac = show_nat (r mod 10 ^ p)
      in (if x < 0 then ''-'' else []) @ show_nat (r div 10 ^ p)
         @ (if p = 0 then [] else ''.'' @ replicate (p - length frac) (CHR ''0'') @ frac))"

definition ljust :: "nat \<Rightarrow> string \<Rightarrow> string" where
  "ljust w s = s @ replicate (w - length s) (CHR '' '')"

definition rjust :: "nat \<Rightarrow> string \<Rightarrow> string" where
  "rjust w s = replicate (w - length s) (CHR '' '') @ s"

section \<open>Vitals\<close>

definition format_bytes :: "pyfloat \<Rightarrow> string" where
  "format_bytes n =
     (if n \<ge> 2 ^ 30 then format_f 1 (n / 2 ^ 30) @ ''G''
      else if n \<ge> 2 ^ 20 then format_f 0 (n / 2 ^ 20) @ ''M''
      else if n \<ge> 2 ^ 10 then format_f 0 (n / 2 ^ 10) @ ''K''
      else format_f 0 n @ ''B'')"

definition cpu_color :: "pyfloat \<Rightarrow> string" where
  "cpu_color pct = (if pct > 90 then ''bold red'' else if pct > 60 then ''bold yellow'' else ''bold green'')"

definition mem_color :: "pyfloat \<Rightarrow> string" where
  "mem_color pct = (if pct > 90 then ''bold red'' else if pct > 70 then ''bold yellow'' else ''bold green'')"

text \<open>\<open>mem\<close> is read only through \<open>mem.percent\<close>, which is the parameter here.\<close>

definition build_vitals_line ::
  "(rat \<Rightarrow> rat) \<Rightarrow> pyfloat \<Rightarrow> pyfloat list \<Rightarrow> pyfloat \<Rightarrow> pyfloat \<Rightarrow> pyfloat \<Rightarrow> pyfloat
     \<Rightarrow> py_exc + rich_text" where
  "build_vitals_line rnd cpu cpu_history cpu_maximum mem_percent io_read_rate io_write_rate =
     (let line = append_str [] (ascii '' CPU '') ''dim'';
          line = append_str line (ascii (rjust 3 (format_f 0 cpu) @ ''%'')) (cpu_color cpu)
      in case build_vitals_sparkline rnd cpu_history cpu_maximum of
           Inl e \<Rightarrow> Inl e
         | Inr spark \<Rightarrow>
             (let line = line @ spark;
                  line = append_str line [32, 9474, 32] ''dim'';
                  line = append_str line (ascii ''MEM '') ''dim'';
                  line = append_str line (ascii (rjust 2 (format_f 0 mem_percent) @ ''%''))
                           (mem_color mem_percent);
                  line = append_str line [32, 9474, 32] ''dim'';
                  line = append_str line (ascii ''IO '') ''dim'';
                  line = append_str line (9650 # ascii (format_bytes io_read_rate)) ''cyan'';
                  line = append_str line (32 # 9660 # ascii (format_bytes io_write_rate)) ''magenta'';
                  line = append_str line (ascii ''/s'') ''dim''
              in Inr line))"

section \<open>Panel\<close>

record panel =
  content :: rich_text
  title :: pystr
  title_align :: string
  border_style :: string
  width :: nat

text \<open>\<open>drops\<close>, \<open>alert\<close> and \<open>border\<close> of \<open>build_panel\<close> (lines 168 to 171).\<close>

definition drops_of :: "pyfloat option list \<Rightarrow> nat" where
  "drops_of values = length (filter (\<lambda>v. v = None) values)"

definition alert_of :: "pyfloat option list \<Rightarrow> bool" where
  "alert_of values = (drops_of values > 0)"

definition border_of :: "pyfloat option list \<Rightarrow> string" where
  "border_of values = (if alert_of values then ''red'' else ''green'')"

text \<open>Lines 175 to 178: the status glyph.\<close>

definition status_glyph :: "pyfloat option list \<Rightarrow> rich_text" where
  "status_glyph values =
     (if alert_of values then append_str [] [32, 9888, 32] ''bold yellow''
      else append_str [] [32, 9679, 32] ''bold green'')"

text \<open>Lines 180 to 186: the latest reading.\<close>

definition latest_field :: "pyfloat option list \<Rightarrow> rich_text" where
  "latest_field values =
     (let latest = (if values \<noteq> [] then last values else None)
      in case latest of
           Some l \<Rightarrow>
             (let latency_str = format_f 1 l @ ''ms'';
                  style = (if l > HIGH_LATENCY_MS then ''bold yellow'' else ''bold green'')
              in append_str [] (ascii (ljust 9 latency_str)) style)
         | None \<Rightarrow> append_str [] (ascii ''timeout  '') ''bold red'')"

text \<open>Lines 191 to 200: the trailing status phrase.\<close>

definition status_phrase :: "pyfloat option list \<Rightarrow> rich_text" where
  "status_phrase values =
     (let drops = drops_of values; total = length values
      in if alert_of values
         then (if drops = 1 then append_str [] (ascii (show_nat drops @ '' drop! '')) ''bold red''
               else append_str [] (ascii (show_nat drops @ '' drops!'')) ''bold red'')
         else (if total > 0 then append_str [] (ascii ''0% loss'') ''dim green''
               else append_str [] (ascii ''waiting'') ''dim''))"

text \<open>Lines 203 to 209: the divider and the vitals line, when one is given.\<close>

definition vitals_part :: "rich_text option \<Rightarrow> rich_text" where
  "vitals_part vitals_line =
     (case vitals_line of
        None \<Rightarrow> []
      | Some vl \<Rightarrow>
          (let divider_width = PANEL_WIDTH - 4
           in Text [10] @ append_str [] (replicate divider_width 9472) ''dim'' @ Text [10] @ vl))"

definition build_panel ::
  "(rat \<Rightarrow> rat) \<Rightarrow> pystr \<Rightarrow> pyfloat option list \<Rightarrow> rich_text option \<Rightarrow> py_exc + panel" where
  "build_panel rnd host history vitals_line =
     (let values = history;
          content = status_glyph values @ latest_field values
      in case build_sparkline rnd history of
           Inl e \<Rightarrow> Inl e
         | Inr spark \<Rightarrow>
             (let content = content @ spark;
                  content = content @ Text (ascii ''   '');
                  content = content @ status_phrase values;
                  content = content @ vitals_part vitals_line
              in Inr \<lparr>content = content, title = host, title_align = ''left'',
                       border_style = border_of values, width = PANEL_WIDTH\<rparr>))"

section \<open>Ping\<close>



definition is_digit :: "char \<Rightarrow> bool" where
  "is_digit c = (48 \<le> (of_char c :: nat) \<and> (of_char c :: nat) \<le> 57)"

definition is_space :: "char \<Rightarrow> bool" where
  "is_space c = ((of_char c :: nat) \<in> {9, 10, 11, 12, 13, 28, 29, 30, 31, 32, 133, 160})"

text \<open>
  The pattern \<open>time=(\d+\.?\d*)\s*ms\<close> matched at the start of \<open>s\<close>; the result is
  group 1. Every quantifier is greedy and is followed by something that its own
  characters cannot start, so giving characters back never turns a failure into a match
  and the first attempt of the matcher, which this function follows, decides.
\<close>

definition match_here :: "string \<Rightarrow> string option" where
  "match_here s =
     (if take 5 s = ''time=''
      then (let r0 = drop 5 s;
                d1 = takeWhile is_digit r0;
                r1 = dropWhile is_digit r0;
                dot = (if r1 \<noteq> [] \<and> hd r1 = CHR ''.'' then ''.'' else []);
                r2 = drop (length dot) r1;
                d2 = takeWhile is_digit r2;
                r3 = dropWhile is_digit r2;
                r4 = dropWhile is_space r3
            in if d1 \<noteq> [] \<and> take 2 r4 = ''ms'' then Some (d1 @ dot @ d2) else None)
      else None)"

text \<open>\<open>re.search\<close>: the match at the leftmost position that has one.\<close>

fun re_search :: "string \<Rightarrow> string option" where
  "re_search [] = match_here []"
| "re_search (c # cs) =
     (case match_here (c # cs) of Some g \<Rightarrow> Some g | None \<Rightarrow> re_search cs)"

text \<open>
  The strings that the pattern matches at the start of \<open>s\<close>, with their group 1, written
  as the pattern reads: \<open>time=\<close>, one or more digits, at most one point, digits, white
  space, \<open>ms\<close>. Lemma \<open>match_here_iff\<close> shows that \<open>match_here\<close> finds a match exactly
  when there is one and that group 1 is the same for every way of matching, and lemma
  \<open>re_search_leftmost\<close> that \<open>re_search\<close> takes the first position that has a match.
\<close>

definition pattern_at :: "string \<Rightarrow> string \<Rightarrow> bool" where
  "pattern_at s g \<longleftrightarrow>
     (\<exists>d1 dot d2 ws post.
        s = ''time='' @ d1 @ dot @ d2 @ ws @ ''ms'' @ post
        \<and> d1 \<noteq> [] \<and> list_all is_digit d1 \<and> (dot = [] \<or> dot = ''.'')
        \<and> list_all is_digit d2 \<and> list_all is_space ws \<and> g = d1 @ dot @ d2)"

definition digits_value :: "string \<Rightarrow> nat" where
  "digits_value ds = foldl (\<lambda>a c. 10 * a + (of_char c - 48)) 0 ds"



section \<open>History buffers and session maxima (main)\<close>

text \<open>
  \<open>deque(maxlen=C).append(x)\<close>: the element is added at the right end and, when the
  deque is then longer than \<open>C\<close>, the leftmost element is dropped.
\<close>

definition deque_append :: "nat \<Rightarrow> 'a list \<Rightarrow> 'a \<Rightarrow> 'a list" where
  "deque_append maxlen xs x =
     (let ys = xs @ [x] in if length ys > maxlen then tl ys else ys)"

text \<open>
  The state of \<open>main\<close> that lives across ticks. \<open>prev_io\<close> is the last reading of the
  disk counters (read bytes, written bytes), \<open>None\<close> when the provider has none.
\<close>

record session =
  history :: "pyfloat option list"
  cpu_hist :: "pyfloat list"
  io_hist :: "pyfloat list"
  cpu_max :: pyfloat
  io_max :: pyfloat
  prev_io :: "(int \<times> int) option"

definition init_session :: "(int \<times> int) option \<Rightarrow> session" where
  "init_session io0 =
     \<lparr>history = [], cpu_hist = [], io_hist = [], cpu_max = 1, io_max = 1, prev_io = io0\<rparr>"

text \<open>
  What one tick reads from outside: the result of \<open>run_ping\<close>, the CPU percentage, the
  disk counters, and the time elapsed since the previous reading of the counters.
\<close>

record tick_input =
  latency :: "pyfloat option"
  cpu_pct :: pyfloat
  cur_io :: "(int \<times> int) option"
  dt :: pyfloat

definition io_rates :: "(rat \<Rightarrow> rat) \<Rightarrow> (int \<times> int) option \<Rightarrow> tick_input \<Rightarrow> pyfloat \<times> pyfloat" where
  "io_rates rnd prev i =
     (case (cur_io i, prev) of
        (Some (cr, cw), Some (pr, pw)) \<Rightarrow>
          if dt i > 0
          then (rnd (rnd (of_int (cr - pr)) / dt i), rnd (rnd (of_int (cw - pw)) / dt i))
          else (0, 0)
      | _ \<Rightarrow> (0, 0))"

definition io_combined :: "(rat \<Rightarrow> rat) \<Rightarrow> session \<Rightarrow> tick_input \<Rightarrow> pyfloat" where
  "io_combined rnd s i = (case io_rates rnd (prev_io s) i of (r, w) \<Rightarrow> rnd (r + w))"

definition tick :: "(rat \<Rightarrow> rat) \<Rightarrow> session \<Rightarrow> tick_input \<Rightarrow> session" where
  "tick rnd s i =
     \<lparr>history = deque_append HISTORY_SIZE (history s) (latency i),
      cpu_hist = deque_append VITALS_SPARK_SIZE (cpu_hist s) (cpu_pct i),
      io_hist = deque_append VITALS_SPARK_SIZE (io_hist s) (io_combined rnd s i),
      cpu_max = max (max (cpu_max s) (cpu_pct i)) 10,
      io_max = max (max (io_max s) (io_combined rnd s i)) 1024,
      prev_io = cur_io i\<rparr>"

fun run :: "(rat \<Rightarrow> rat) \<Rightarrow> session \<Rightarrow> tick_input list \<Rightarrow> session" where
  "run rnd s [] = s"
| "run rnd s (i # is) = run rnd (tick rnd s i) is"

text \<open>The samples that a run appends to the IO history, in the order of the ticks.\<close>

fun io_samples :: "(rat \<Rightarrow> rat) \<Rightarrow> session \<Rightarrow> tick_input list \<Rightarrow> pyfloat list" where
  "io_samples rnd s [] = []"
| "io_samples rnd s (i # is) = io_combined rnd s i # io_samples rnd (tick rnd s i) is"

section \<open>Properties of the history buffers\<close>

lemma deque_append_fold:
  "length xs \<le> C \<Longrightarrow>
   foldl (deque_append C) xs ys = drop (length xs + length ys - C) (xs @ ys)"
proof (induction ys arbitrary: xs)
  case Nil
  then show ?case by simp
next
  case (Cons y ys)
  have len: "length (deque_append C xs y) \<le> C"
    using Cons.prems by (auto simp: deque_append_def Let_def)
  show ?case
  proof (cases "length xs < C")
    case True
    then have "deque_append C xs y = xs @ [y]"
      by (simp add: deque_append_def Let_def)
    with Cons.IH [OF len] show ?thesis by simp
  next
    case False
    with Cons.prems have eq: "length xs = C" by simp
    show ?thesis
    proof (cases xs)
      case Nil
      with eq have "deque_append C xs y = []"
        by (simp add: deque_append_def Let_def)
      with Cons.IH [OF len] Nil eq show ?thesis by simp
    next
      case (Cons x xs')
      with eq have step: "deque_append C xs y = xs' @ [y]"
        by (auto simp: deque_append_def Let_def)
      have "foldl (deque_append C) (xs' @ [y]) ys
            = drop (length (xs' @ [y]) + length ys - C) ((xs' @ [y]) @ ys)"
        using Cons.IH [OF len] step by simp
      with step Cons eq show ?thesis by (simp add: drop_Cons')
    qed
  qed
qed

lemma run_history:
  "history (run rnd s is) = foldl (deque_append HISTORY_SIZE) (history s) (map latency is)"
  by (induction "is" arbitrary: s) (simp_all add: tick_def)

lemma run_cpu_hist:
  "cpu_hist (run rnd s is) = foldl (deque_append VITALS_SPARK_SIZE) (cpu_hist s) (map cpu_pct is)"
  by (induction "is" arbitrary: s) (simp_all add: tick_def)

lemma run_io_hist:
  "io_hist (run rnd s is) = foldl (deque_append VITALS_SPARK_SIZE) (io_hist s) (io_samples rnd s is)"
  by (induction "is" arbitrary: s) (simp_all add: tick_def)

lemma length_io_samples: "length (io_samples rnd s is) = length is"
  by (induction "is" arbitrary: s) simp_all

text \<open>
  C1. A buffer of capacity \<open>C\<close> that starts empty holds, after any \<open>N\<close> samples have been
  appended, exactly the last \<open>min N C\<close> of them in the order of insertion, so its length is
  \<open>min N C\<close>, and an append to a full buffer drops the oldest element. In \<open>main\<close> the
  latency history has capacity 30 and the CPU and IO histories capacity 10, and after any
  run of ticks each holds the most recent samples appended to it.
\<close>

theorem history_buffer_keeps_most_recent:
  "foldl (deque_append C) [] samples = drop (length samples - C) samples
   \<and> length (foldl (deque_append C) [] samples) = min (length samples) C
   \<and> (length (x # xs) = C \<longrightarrow> deque_append C (x # xs) y = xs @ [y])
   \<and> (length xs < C \<longrightarrow> deque_append C xs y = xs @ [y])
   \<and> history (run rnd (init_session io0) is)
       = drop (length is - 30) (map latency is)
   \<and> cpu_hist (run rnd (init_session io0) is)
       = drop (length is - 10) (map cpu_pct is)
   \<and> io_hist (run rnd (init_session io0) is)
       = drop (length is - 10) (io_samples rnd (init_session io0) is)"
proof -
  have gen: "\<And>C (ys :: 'b list). foldl (deque_append C) [] ys = drop (length ys - C) ys"
    using deque_append_fold [of "[]"] by simp
  have a: "foldl (deque_append C) [] samples = drop (length samples - C) samples"
    using deque_append_fold [of "[]" C samples] by simp
  have b: "length (foldl (deque_append C) [] samples) = min (length samples) C"
    unfolding a by simp
  have c: "length (x # xs) = C \<longrightarrow> deque_append C (x # xs) y = xs @ [y]"
    by (auto simp: deque_append_def Let_def)
  have d: "length xs < C \<longrightarrow> deque_append C xs y = xs @ [y]"
    by (simp add: deque_append_def Let_def)
  have e: "history (run rnd (init_session io0) is) = drop (length is - 30) (map latency is)"
    using deque_append_fold [of "[]" 30 "map latency is"]
    by (simp add: run_history init_session_def HISTORY_SIZE_def)
  have f: "cpu_hist (run rnd (init_session io0) is) = drop (length is - 10) (map cpu_pct is)"
    using deque_append_fold [of "[]" 10 "map cpu_pct is"]
    by (simp add: run_cpu_hist init_session_def VITALS_SPARK_SIZE_def)
  have g: "io_hist (run rnd (init_session io0) is)
           = drop (length is - 10) (io_samples rnd (init_session io0) is)"
    using deque_append_fold [of "[]" 10 "io_samples rnd (init_session io0) is"]
    by (simp add: run_io_hist init_session_def VITALS_SPARK_SIZE_def length_io_samples)
  from a b c d e f g show ?thesis by blast
qed

theorem history_buffer_keeps_most_recent_witness:
  "foldl (deque_append 2) [] [1, 2, 3 :: nat] = [2, 3]
   \<and> length (foldl (deque_append 2) [] [1, 2, 3 :: nat]) = min 3 2
   \<and> length [1, 2 :: nat] = 2 \<and> deque_append 2 [1, 2 :: nat] 3 = [2, 3]
   \<and> length [1 :: nat] < 2 \<and> deque_append 2 [1 :: nat] 3 = [1, 3]
   \<and> history (run (\<lambda>x. x) (init_session None)
        [\<lparr>latency = Some 20, cpu_pct = 5, cur_io = None, dt = 1\<rparr>]) = [Some 20]"
  using history_buffer_keeps_most_recent [of 2 "[1, 2, 3 :: nat]" 1 "[2 :: nat]" 3 "\<lambda>x. x" None
      "[\<lparr>latency = Some 20, cpu_pct = 5, cur_io = None, dt = 1\<rparr>]"]
    history_buffer_keeps_most_recent [of 2 "[1, 2, 3 :: nat]" 7 "[] :: nat list" 3 "\<lambda>x. x" None "[]"]
  by (simp add: deque_append_def)

section \<open>Properties of the session maxima\<close>

lemma run_append: "run rnd s (is @ js) = run rnd (run rnd s is) js"
  by (induction "is" arbitrary: s) simp_all

lemma run_cpu_max_mono: "cpu_max s \<le> cpu_max (run rnd s is)"
proof (induction "is" arbitrary: s)
  case Nil
  show ?case by simp
next
  case (Cons i "is")
  have "cpu_max s \<le> cpu_max (tick rnd s i)" by (simp add: tick_def)
  also have "\<dots> \<le> cpu_max (run rnd (tick rnd s i) is)" by (rule Cons.IH)
  finally show ?case by simp
qed

lemma run_io_max_mono: "io_max s \<le> io_max (run rnd s is)"
proof (induction "is" arbitrary: s)
  case Nil
  show ?case by simp
next
  case (Cons i "is")
  have "io_max s \<le> io_max (tick rnd s i)" by (simp add: tick_def)
  also have "\<dots> \<le> io_max (run rnd (tick rnd s i) is)" by (rule Cons.IH)
  finally show ?case by simp
qed

lemma run_max_floor:
  "is \<noteq> [] \<Longrightarrow> 10 \<le> cpu_max (run rnd s is) \<and> 1024 \<le> io_max (run rnd s is)"
proof (cases "is")
  case Nil
  assume "is \<noteq> []"
  with Nil show ?thesis by simp
next
  case (Cons i js)
  have "10 \<le> cpu_max (tick rnd s i)" by (simp add: tick_def)
  moreover have "1024 \<le> io_max (tick rnd s i)" by (simp add: tick_def)
  ultimately show ?thesis
    using run_cpu_max_mono [of "tick rnd s i" rnd js] run_io_max_mono [of "tick rnd s i" rnd js] Cons
    by simp
qed

text \<open>
  Against C2 as stated: \<open>main\<close> seeds both maxima with 1.0 (lines 232 and 233), not
  with the floors 10.0 and 1024.0, so before the first tick each maximum is below its
  floor.
\<close>

theorem session_max_seed_counterexample:
  "cpu_max (init_session None) = 1 \<and> io_max (init_session None) = 1
   \<and> \<not> (10 \<le> cpu_max (init_session None)) \<and> \<not> (1024 \<le> io_max (init_session None))"
  by (simp add: init_session_def)

text \<open>
  C2, amended. Each session maximum is seeded with 1.0 and every tick sets it to the
  maximum of its current value, the new sample and its floor (10.0 for CPU, 1024.0 for
  IO). Across any sequence of ticks it never decreases, and once a tick has run it is
  at least its floor.
\<close>

theorem session_max_monotone:
  "cpu_max (init_session io0) = 1 \<and> io_max (init_session io0) = 1
   \<and> cpu_max (tick rnd s i) = max (max (cpu_max s) (cpu_pct i)) 10
   \<and> io_max (tick rnd s i) = max (max (io_max s) (io_combined rnd s i)) 1024
   \<and> cpu_max (run rnd s is) \<le> cpu_max (run rnd s (is @ js))
   \<and> io_max (run rnd s is) \<le> io_max (run rnd s (is @ js))
   \<and> (is \<noteq> [] \<longrightarrow> 10 \<le> cpu_max (run rnd s is) \<and> 1024 \<le> io_max (run rnd s is))"
proof -
  have a: "cpu_max (init_session io0) = 1 \<and> io_max (init_session io0) = 1"
    by (simp add: init_session_def)
  have b: "cpu_max (tick rnd s i) = max (max (cpu_max s) (cpu_pct i)) 10
           \<and> io_max (tick rnd s i) = max (max (io_max s) (io_combined rnd s i)) 1024"
    by (simp add: tick_def)
  have c: "cpu_max (run rnd s is) \<le> cpu_max (run rnd s (is @ js))"
    unfolding run_append by (rule run_cpu_max_mono)
  have d: "io_max (run rnd s is) \<le> io_max (run rnd s (is @ js))"
    unfolding run_append by (rule run_io_max_mono)
  from a b c d run_max_floor [of "is" rnd s] show ?thesis by blast
qed

theorem session_max_monotone_witness:
  "[\<lparr>latency = None, cpu_pct = 50, cur_io = None, dt = 1\<rparr>] \<noteq> []
   \<and> cpu_max (run (\<lambda>x. x) (init_session None) [\<lparr>latency = None, cpu_pct = 50, cur_io = None, dt = 1\<rparr>]) = 50
   \<and> 10 \<le> cpu_max (run (\<lambda>x. x) (init_session None) [\<lparr>latency = None, cpu_pct = 50, cur_io = None, dt = 1\<rparr>])
   \<and> io_max (run (\<lambda>x. x) (init_session None) [\<lparr>latency = None, cpu_pct = 50, cur_io = None, dt = 1\<rparr>]) = 1024"
  using session_max_monotone [of None "\<lambda>x. x" "init_session None"
      "\<lparr>latency = None, cpu_pct = 50, cur_io = None, dt = 1\<rparr>"
      "[\<lparr>latency = None, cpu_pct = 50, cur_io = None, dt = 1\<rparr>]" "[]"]
  by (simp add: init_session_def io_combined_def io_rates_def)

section \<open>Properties of the quantization\<close>

lemma rounding_id: "rounding (\<lambda>x. x)"
  by (simp add: rounding_def)

lemma floor_rat_numeral: "\<lfloor>(numeral a / numeral b :: rat)\<rfloor> = numeral a div numeral b"
  using floor_divide_of_int_eq [of "numeral a" "numeral b", where 'a = rat] by simp

lemma py_int_mono: "x \<le> y \<Longrightarrow> py_int x \<le> py_int y"
proof -
  assume xy: "x \<le> y"
  show ?thesis
  proof (cases "0 \<le> x")
    case True
    with xy show ?thesis by (simp add: py_int_def floor_mono)
  next
    case False
    show ?thesis
    proof (cases "0 \<le> y")
      case True
      have "\<lceil>x\<rceil> \<le> 0" using False by (simp add: ceiling_le_iff)
      moreover have "0 \<le> \<lfloor>y\<rfloor>" using True by simp
      ultimately have "\<lceil>x\<rceil> \<le> \<lfloor>y\<rfloor>" by (rule order_trans)
      with False True show ?thesis by (simp only: py_int_def if_False if_True)
    next
      case False
      with xy \<open>\<not> 0 \<le> x\<close> show ?thesis by (simp add: py_int_def ceiling_mono)
    qed
  qed
qed

lemma quantize_mono:
  assumes "rounding rnd" and "0 < m" and "v1 \<le> v2"
  shows "quantize rnd v1 m \<le> quantize rnd v2 m"
proof -
  have "v1 / m \<le> v2 / m" using assms(2,3) by (simp add: divide_right_mono)
  then have "rnd (v1 / m) \<le> rnd (v2 / m)" using assms(1) by (simp add: rounding_def)
  then have "rnd (v1 / m) * 8 \<le> rnd (v2 / m) * 8" by simp
  then have "py_int (rnd (v1 / m) * 8) \<le> py_int (rnd (v2 / m) * 8)" by (rule py_int_mono)
  then show ?thesis by (simp add: quantize_def)
qed

lemma quantize_range:
  assumes "rounding rnd" and "0 < m" and "0 \<le> v"
  shows "0 \<le> quantize rnd v m \<and> quantize rnd v m \<le> 8"
proof -
  have "0 \<le> v / m" using assms(2,3) by simp
  then have "rnd 0 \<le> rnd (v / m)" using assms(1) unfolding rounding_def by blast
  then have "0 \<le> rnd (v / m) * 8" using assms(1) by (simp add: rounding_def)
  then have "0 \<le> py_int (rnd (v / m) * 8)" by (simp add: py_int_def)
  then show ?thesis by (simp add: quantize_def)
qed

lemma quantize_clamped:
  assumes "rounding rnd" and "0 < m" and "m \<le> v"
  shows "quantize rnd v m = 8"
proof -
  have "1 \<le> v / m" using assms(2,3) by simp
  then have "rnd 1 \<le> rnd (v / m)" using assms(1) unfolding rounding_def by blast
  then have ge: "8 \<le> rnd (v / m) * 8" using assms(1) by (simp add: rounding_def)
  then have "8 \<le> \<lfloor>rnd (v / m) * 8\<rfloor>" by (simp add: le_floor_iff)
  with ge show ?thesis by (simp add: quantize_def py_int_def)
qed

text \<open>
  C3. For a scale \<open>maxVal > 0\<close> the index that both sparklines compute is monotone in
  the value, lies between 0 and 8 for every non-negative value, and is 8 for every value
  above the scale. With exact division it is \<open>min (floor (v / maxVal * 8)) 8\<close> for
  non-negative \<open>v\<close>. Monotonicity and the bounds hold for every rounding of the division.
\<close>

theorem quantize_monotone_bounded:
  assumes "rounding rnd" and "0 < maxVal"
  shows "(v1 < v2 \<longrightarrow> quantize rnd v1 maxVal \<le> quantize rnd v2 maxVal)
         \<and> (0 \<le> v \<longrightarrow> 0 \<le> quantize rnd v maxVal \<and> quantize rnd v maxVal \<le> 8)
         \<and> (maxVal < v \<longrightarrow> quantize rnd v maxVal = 8)
         \<and> (0 \<le> v \<longrightarrow> quantize (\<lambda>x. x) v maxVal = min \<lfloor>v / maxVal * 8\<rfloor> 8)"
proof -
  have a: "v1 < v2 \<longrightarrow> quantize rnd v1 maxVal \<le> quantize rnd v2 maxVal"
    using quantize_mono [OF assms, of v1 v2] by simp
  have b: "0 \<le> v \<longrightarrow> 0 \<le> quantize rnd v maxVal \<and> quantize rnd v maxVal \<le> 8"
    using quantize_range [OF assms, of v] by simp
  have c: "maxVal < v \<longrightarrow> quantize rnd v maxVal = 8"
    using quantize_clamped [OF assms, of v] by simp
  have d: "0 \<le> v \<longrightarrow> quantize (\<lambda>x. x) v maxVal = min \<lfloor>v / maxVal * 8\<rfloor> 8"
    using assms(2) by (simp add: quantize_def py_int_def)
  from a b c d show ?thesis by blast
qed

theorem quantize_monotone_bounded_witness:
  "rounding (\<lambda>x. x) \<and> (0::rat) < 5 \<and> (3::rat) < 4 \<and> (0::rat) \<le> 3 \<and> (5::rat) < 7
   \<and> quantize (\<lambda>x. x) 3 5 = 4 \<and> quantize (\<lambda>x. x) 4 5 = 6 \<and> quantize (\<lambda>x. x) 7 5 = 8
   \<and> quantize (\<lambda>x. x) 3 5 \<le> quantize (\<lambda>x. x) 4 5"
  using quantize_monotone_bounded [OF rounding_id, of 5 3 4 3]
    quantize_monotone_bounded [OF rounding_id, of 5 3 4 7]
  by (simp add: rounding_id quantize_def py_int_def floor_rat_numeral)

section \<open>Properties of the sparklines\<close>

lemma getitem_ramp:
  "0 \<le> i \<Longrightarrow> i \<le> 8 \<Longrightarrow> getitem SPARK_CHARS i = Inr (SPARK_CHARS ! nat i)"
  by (simp add: getitem_def SPARK_CHARS_def)

lemma latencies_set:
  "set (map the (filter (\<lambda>v. v \<noteq> None) h)) = {v. Some v \<in> set h}"
  by (induction h) auto

lemma latency_max_val_none:
  "\<not> (\<exists>v. Some v \<in> set h) \<Longrightarrow> latency_max_val h = 5"
proof -
  assume a: "\<not> (\<exists>v. Some v \<in> set h)"
  have "set (map the (filter (\<lambda>v. v \<noteq> None) h)) = {}"
    unfolding latencies_set using a by simp
  then have "map the (filter (\<lambda>v. v \<noteq> None) h) = []" by (simp only: set_empty)
  then show ?thesis by (simp add: latency_max_val_def)
qed

lemma latency_max_val_some:
  "\<exists>v. Some v \<in> set h \<Longrightarrow> latency_max_val h = max (Max {v. Some v \<in> set h}) 5"
proof -
  assume a: "\<exists>v. Some v \<in> set h"
  define l where "l = map the (filter (\<lambda>v. v \<noteq> None) h)"
  have s: "set l = {v. Some v \<in> set h}" unfolding l_def by (rule latencies_set)
  with a have ne: "l \<noteq> []" by auto
  then obtain x xs where l: "l = x # xs" by (cases l) auto
  have m: "fold max (tl l) (hd l) = Max (set l)"
    unfolding l using Max.set_eq_fold [of x xs] by simp
  have "latency_max_val h = max (if l \<noteq> [] then fold max (tl l) (hd l) else 1) 5"
    unfolding latency_max_val_def l_def Let_def by (rule refl)
  with ne m s show ?thesis by simp
qed

lemma latency_max_val_ge: "5 \<le> latency_max_val h"
  by (simp add: latency_max_val_def Let_def)

lemma sparkline_loop_cells:
  assumes "rounding rnd" and "0 < m"
  shows "\<forall>v. Some v \<in> set vs \<longrightarrow> 0 \<le> v \<Longrightarrow>
         sparkline_loop rnd m acc vs =
           Inr (acc @ map (\<lambda>x. case x of
                                 None \<Rightarrow> (9617, Some ''bold red'')
                               | Some v \<Rightarrow> (SPARK_CHARS ! nat (quantize rnd v m),
                                            Some (if v > 100 then ''yellow'' else ''cyan''))) vs)"
proof (induction vs arbitrary: acc)
  case Nil
  show ?case by simp
next
  case (Cons x vs)
  then have IH: "\<And>acc. sparkline_loop rnd m acc vs =
           Inr (acc @ map (\<lambda>x. case x of
                                 None \<Rightarrow> (9617, Some ''bold red'')
                               | Some v \<Rightarrow> (SPARK_CHARS ! nat (quantize rnd v m),
                                            Some (if v > 100 then ''yellow'' else ''cyan''))) vs)"
    by simp
  show ?case
  proof (cases x)
    case None
    then show ?thesis by (simp add: IH append_str_def DROP_CHAR_def)
  next
    case (Some v)
    with Cons.prems have "0 \<le> v" by simp
    then have "0 \<le> quantize rnd v m \<and> quantize rnd v m \<le> 8"
      using quantize_range [OF assms] by simp
    then have "getitem SPARK_CHARS (quantize rnd v m) = Inr (SPARK_CHARS ! nat (quantize rnd v m))"
      by (simp add: getitem_ramp)
    with Some show ?thesis by (simp add: IH append_str_def HIGH_LATENCY_MS_def)
  qed
qed

lemma sparkline_loop_all_dropped:
  "\<forall>x \<in> set vs. x = None \<Longrightarrow>
   sparkline_loop rnd m acc vs = Inr (acc @ replicate (length vs) (9617, Some ''bold red''))"
proof (induction vs arbitrary: acc)
  case Nil
  show ?case by simp
next
  case (Cons x vs)
  then have "x = None" by simp
  with Cons show ?case by (simp add: append_str_def DROP_CHAR_def replicate_app_Cons_same)
qed

lemma build_sparkline_padded:
  "sparkline_loop rnd (latency_max_val h) [] h = Inr cells \<Longrightarrow>
   build_sparkline rnd h = Inr (replicate (30 - length h) (32, None) @ cells)"
  by (simp add: build_sparkline_def Let_def HISTORY_SIZE_def Text_def nat_diff_distrib')

lemma vitals_loop_cells:
  assumes "rounding rnd" and "0 < m"
  shows "\<forall>v \<in> set vs. 0 \<le> v \<Longrightarrow>
         \<exists>cells. vitals_loop rnd m acc vs = Inr (acc @ cells) \<and> length cells = length vs"
proof (induction vs arbitrary: acc)
  case Nil
  show ?case by simp
next
  case (Cons v vs)
  then have "0 \<le> v" by simp
  then have "0 \<le> quantize rnd v m \<and> quantize rnd v m \<le> 8"
    using quantize_range [OF assms] by simp
  then have g: "getitem SPARK_CHARS (quantize rnd v m) = Inr (SPARK_CHARS ! nat (quantize rnd v m))"
    by (simp add: getitem_ramp)
  from Cons have rest: "\<And>acc. \<exists>cells. vitals_loop rnd m acc vs = Inr (acc @ cells) \<and> length cells = length vs"
    by simp
  define style where
    "style = (if (if m > 0 then rnd (v / m) else 0) > ratio_red then ''red''
              else if (if m > 0 then rnd (v / m) else 0) > ratio_yellow then ''yellow''
              else ''cyan'')"
  have step: "vitals_loop rnd m acc (v # vs)
           = vitals_loop rnd m (acc @ [(SPARK_CHARS ! nat (quantize rnd v m), Some style)]) vs"
    by (simp add: g append_str_def Let_def style_def)
  from rest [of "acc @ [(SPARK_CHARS ! nat (quantize rnd v m), Some style)]"]
  obtain cells where
    c: "vitals_loop rnd m (acc @ [(SPARK_CHARS ! nat (quantize rnd v m), Some style)]) vs
        = Inr ((acc @ [(SPARK_CHARS ! nat (quantize rnd v m), Some style)]) @ cells)"
    and l: "length cells = length vs"
    by blast
  have "vitals_loop rnd m acc (v # vs)
        = Inr (acc @ ((SPARK_CHARS ! nat (quantize rnd v m), Some style) # cells))"
    using step c by simp
  moreover have "length ((SPARK_CHARS ! nat (quantize rnd v m), Some style) # cells) = length (v # vs)"
    using l by simp
  ultimately show ?case by blast
qed

lemma build_vitals_sparkline_padded:
  "vitals_loop rnd (max session_max 1) [] hv = Inr cells \<Longrightarrow>
   build_vitals_sparkline rnd hv session_max = Inr (replicate (10 - length hv) (32, None) @ cells)"
  by (simp add: build_vitals_sparkline_def Let_def VITALS_SPARK_SIZE_def Text_def nat_diff_distrib')

text \<open>
  C4. The scale of the latency sparkline is the maximum of 5.0 and the largest
  non-dropped value of the window it is given, so it is computed anew at every render.
  For a window of non-negative samples the sparkline is built, and behind the padding
  the cell of every dropped sample is the drop glyph in bold red, which is not a glyph
  of the ramp, and the cell of every other sample is the ramp glyph of its index,
  yellow when the value is strictly above 100 and cyan otherwise.
\<close>

theorem latency_sparkline_policy:
  assumes "rounding rnd" and "\<forall>v. Some v \<in> set h \<longrightarrow> 0 \<le> v"
  shows "((\<exists>v. Some v \<in> set h) \<longrightarrow> latency_max_val h = max (Max {v. Some v \<in> set h}) 5)
         \<and> (\<exists>spark. build_sparkline rnd h = Inr spark
              \<and> length spark = (30 - length h) + length h
              \<and> (\<forall>i < length h. h ! i = None \<longrightarrow>
                    spark ! (30 - length h + i) = (9617, Some ''bold red''))
              \<and> (\<forall>i < length h. \<forall>v. h ! i = Some v \<longrightarrow>
                    0 \<le> quantize rnd v (latency_max_val h)
                    \<and> quantize rnd v (latency_max_val h) \<le> 8
                    \<and> spark ! (30 - length h + i)
                        = (SPARK_CHARS ! nat (quantize rnd v (latency_max_val h)),
                           Some (if v > 100 then ''yellow'' else ''cyan''))))
         \<and> DROP_CHAR = [9617] \<and> 9617 \<notin> set SPARK_CHARS"
proof -
  let ?M = "latency_max_val h"
  let ?cell = "\<lambda>x. case x of
                      None \<Rightarrow> (9617 :: nat, Some ''bold red'')
                    | Some v \<Rightarrow> (SPARK_CHARS ! nat (quantize rnd v ?M),
                                 Some (if v > 100 then ''yellow'' else ''cyan''))"
  let ?spark = "replicate (30 - length h) (32, None) @ map ?cell h"
  have pos: "0 < ?M" using latency_max_val_ge [of h] by simp
  have a: "(\<exists>v. Some v \<in> set h) \<longrightarrow> ?M = max (Max {v. Some v \<in> set h}) 5"
    using latency_max_val_some by blast
  have "sparkline_loop rnd ?M [] h = Inr ([] @ map ?cell h)"
    using assms(2) by (rule sparkline_loop_cells [OF assms(1) pos])
  then have b: "build_sparkline rnd h = Inr ?spark"
    using build_sparkline_padded [of rnd h] by simp
  have c: "length ?spark = (30 - length h) + length h" by simp
  have d: "\<forall>i < length h. h ! i = None \<longrightarrow> ?spark ! (30 - length h + i) = (9617, Some ''bold red'')"
    by (simp add: nth_append)
  have e: "\<forall>i < length h. \<forall>v. h ! i = Some v \<longrightarrow>
             0 \<le> quantize rnd v ?M \<and> quantize rnd v ?M \<le> 8
             \<and> ?spark ! (30 - length h + i)
                 = (SPARK_CHARS ! nat (quantize rnd v ?M), Some (if v > 100 then ''yellow'' else ''cyan''))"
  proof (intro allI impI)
    fix i v
    assume i: "i < length h" and v: "h ! i = Some v"
    then have "Some v \<in> set h" by (metis nth_mem)
    with assms(2) have "0 \<le> v" by simp
    then have "0 \<le> quantize rnd v ?M \<and> quantize rnd v ?M \<le> 8"
      using quantize_range [OF assms(1) pos] by simp
    moreover have "?spark ! (30 - length h + i)
                 = (SPARK_CHARS ! nat (quantize rnd v ?M), Some (if v > 100 then ''yellow'' else ''cyan''))"
      using i v by (simp add: nth_append)
    ultimately show "0 \<le> quantize rnd v ?M \<and> quantize rnd v ?M \<le> 8
             \<and> ?spark ! (30 - length h + i)
                 = (SPARK_CHARS ! nat (quantize rnd v ?M), Some (if v > 100 then ''yellow'' else ''cyan''))"
      by simp
  qed
  have f: "DROP_CHAR = [9617] \<and> 9617 \<notin> set SPARK_CHARS"
    by (simp add: DROP_CHAR_def SPARK_CHARS_def)
  from b c d e have "\<exists>spark. build_sparkline rnd h = Inr spark
              \<and> length spark = (30 - length h) + length h
              \<and> (\<forall>i < length h. h ! i = None \<longrightarrow>
                    spark ! (30 - length h + i) = (9617, Some ''bold red''))
              \<and> (\<forall>i < length h. \<forall>v. h ! i = Some v \<longrightarrow>
                    0 \<le> quantize rnd v ?M \<and> quantize rnd v ?M \<le> 8
                    \<and> spark ! (30 - length h + i)
                        = (SPARK_CHARS ! nat (quantize rnd v ?M),
                           Some (if v > 100 then ''yellow'' else ''cyan'')))"
    by blast
  with a f show ?thesis by blast
qed

theorem latency_sparkline_policy_witness:
  "rounding (\<lambda>x. x) \<and> (0 :: pyfloat) \<le> 20 \<and> (0 :: pyfloat) \<le> 101
   \<and> latency_max_val [Some 20, None, Some 101] = 101
   \<and> build_sparkline (\<lambda>x. x) [Some 20, None, Some 101]
       = Inr (replicate 27 (32, None)
              @ [(9601, Some ''cyan''), (9617, Some ''bold red''), (9608, Some ''yellow'')])"
proof -
  have h: "\<forall>v. Some v \<in> set [Some 20, None, Some 101 :: pyfloat option] \<longrightarrow> 0 \<le> v" by auto
  have m: "latency_max_val [Some 20, None, Some 101] = 101"
    by (simp add: latency_max_val_def)
  have q: "quantize (\<lambda>x. x) 20 101 = 1 \<and> quantize (\<lambda>x. x) 101 101 = 8"
    by (simp add: quantize_def py_int_def floor_rat_numeral)
  have b: "build_sparkline (\<lambda>x. x) [Some 20, None, Some 101]
       = Inr (replicate 27 (32, None)
              @ [(9601, Some ''cyan''), (9617, Some ''bold red''), (9608, Some ''yellow'')])"
    by (simp add: build_sparkline_def m q getitem_def SPARK_CHARS_def DROP_CHAR_def
        HIGH_LATENCY_MS_def HISTORY_SIZE_def append_str_def Text_def Let_def)
  from latency_sparkline_policy [OF rounding_id h] rounding_id m b show ?thesis by simp
qed

text \<open>
  C5. For a window of at most 30 non-negative latency samples the sparkline has exactly
  30 cells, and for a window of at most 10 non-negative vitals samples exactly 10: the
  first cells are unstyled blanks, as many as samples are missing, and the cells after
  them are the output of the loop over the samples, one cell for each, oldest first.
\<close>

theorem sparkline_fixed_width:
  assumes "rounding rnd"
  shows "(length h \<le> 30 \<and> (\<forall>v. Some v \<in> set h \<longrightarrow> 0 \<le> v) \<longrightarrow>
           (\<exists>spark. build_sparkline rnd h = Inr spark \<and> length spark = 30
              \<and> take (30 - length h) spark = replicate (30 - length h) (32, None)
              \<and> sparkline_loop rnd (latency_max_val h) [] h = Inr (drop (30 - length h) spark)
              \<and> length (drop (30 - length h) spark) = length h))
         \<and> (length hv \<le> 10 \<and> (\<forall>v \<in> set hv. 0 \<le> v) \<longrightarrow>
           (\<exists>spark. build_vitals_sparkline rnd hv session_max = Inr spark \<and> length spark = 10
              \<and> take (10 - length hv) spark = replicate (10 - length hv) (32, None)
              \<and> vitals_loop rnd (max session_max 1) [] hv = Inr (drop (10 - length hv) spark)
              \<and> length (drop (10 - length hv) spark) = length hv))"
proof (intro conjI impI)
  assume a: "length h \<le> 30 \<and> (\<forall>v. Some v \<in> set h \<longrightarrow> 0 \<le> v)"
  let ?M = "latency_max_val h"
  have pos: "0 < ?M" using latency_max_val_ge [of h] by simp
  obtain cells where c: "sparkline_loop rnd ?M [] h = Inr cells" and l: "length cells = length h"
    using sparkline_loop_cells [OF assms pos, of h "[]"] a by simp
  let ?spark = "replicate (30 - length h) (32, None) @ cells"
  have "build_sparkline rnd h = Inr ?spark" using c by (rule build_sparkline_padded)
  moreover have "length ?spark = 30" using a l by simp
  moreover have "take (30 - length h) ?spark = replicate (30 - length h) (32, None)" by simp
  moreover have "sparkline_loop rnd ?M [] h = Inr (drop (30 - length h) ?spark)" using c by simp
  moreover have "length (drop (30 - length h) ?spark) = length h" using l by simp
  ultimately show "\<exists>spark. build_sparkline rnd h = Inr spark \<and> length spark = 30
              \<and> take (30 - length h) spark = replicate (30 - length h) (32, None)
              \<and> sparkline_loop rnd ?M [] h = Inr (drop (30 - length h) spark)
              \<and> length (drop (30 - length h) spark) = length h"
    by blast
next
  assume a: "length hv \<le> 10 \<and> (\<forall>v \<in> set hv. 0 \<le> v)"
  let ?m = "max session_max 1"
  have pos: "0 < ?m" by simp
  obtain cells where c: "vitals_loop rnd ?m [] hv = Inr cells" and l: "length cells = length hv"
    using vitals_loop_cells [OF assms pos, of hv "[]"] a by auto
  let ?spark = "replicate (10 - length hv) (32, None) @ cells"
  have "build_vitals_sparkline rnd hv session_max = Inr ?spark"
    using c by (rule build_vitals_sparkline_padded)
  moreover have "length ?spark = 10" using a l by simp
  moreover have "take (10 - length hv) ?spark = replicate (10 - length hv) (32, None)" by simp
  moreover have "vitals_loop rnd ?m [] hv = Inr (drop (10 - length hv) ?spark)" using c by simp
  moreover have "length (drop (10 - length hv) ?spark) = length hv" using l by simp
  ultimately show "\<exists>spark. build_vitals_sparkline rnd hv session_max = Inr spark \<and> length spark = 10
              \<and> take (10 - length hv) spark = replicate (10 - length hv) (32, None)
              \<and> vitals_loop rnd ?m [] hv = Inr (drop (10 - length hv) spark)
              \<and> length (drop (10 - length hv) spark) = length hv"
    by blast
qed

theorem sparkline_fixed_width_witness:
  "rounding (\<lambda>x. x)
   \<and> length [Some 5 :: pyfloat option] \<le> 30 \<and> (0 :: pyfloat) \<le> 5
   \<and> build_sparkline (\<lambda>x. x) [Some 5] = Inr (replicate 29 (32, None) @ [(9608, Some ''cyan'')])
   \<and> length [5, 10 :: pyfloat] \<le> 10 \<and> (0 :: pyfloat) \<le> 10
   \<and> build_vitals_sparkline (\<lambda>x. x) [5, 10] 10
       = Inr (replicate 8 (32, None) @ [(9604, Some ''cyan''), (9608, Some ''red'')])"
proof -
  have h: "length [Some 5 :: pyfloat option] \<le> 30 \<and> (\<forall>v. Some v \<in> set [Some 5 :: pyfloat option] \<longrightarrow> 0 \<le> v)"
    by simp
  have hv: "length [5, 10 :: pyfloat] \<le> 10 \<and> (\<forall>v \<in> set [5, 10 :: pyfloat]. 0 \<le> v)"
    by simp
  have q: "quantize (\<lambda>x. x) 5 5 = 8 \<and> quantize (\<lambda>x. x) 5 10 = 4 \<and> quantize (\<lambda>x. x) 10 10 = 8"
    by (simp add: quantize_def py_int_def floor_rat_numeral)
  have b: "build_sparkline (\<lambda>x. x) [Some 5] = Inr (replicate 29 (32, None) @ [(9608, Some ''cyan'')])"
    by (simp add: build_sparkline_def latency_max_val_def q getitem_def SPARK_CHARS_def
        HIGH_LATENCY_MS_def HISTORY_SIZE_def append_str_def Text_def Let_def)
  have c: "build_vitals_sparkline (\<lambda>x. x) [5, 10] 10
       = Inr (replicate 8 (32, None) @ [(9604, Some ''cyan''), (9608, Some ''red'')])"
    by (simp add: build_vitals_sparkline_def q getitem_def SPARK_CHARS_def ratio_red_def
        ratio_yellow_def VITALS_SPARK_SIZE_def append_str_def Text_def Let_def)
  from sparkline_fixed_width [OF rounding_id, of "[Some 5]" "[5, 10]" 10] rounding_id b c
  show ?thesis by simp
qed

text \<open>
  C10. For a window without a non-dropped value (the empty window, or drops only) the
  scale is 5.0 and \<open>build_sparkline\<close> returns: the padding followed by one drop glyph
  in bold red for each sample, and 30 blanks for the empty window.
\<close>

theorem sparkline_total_without_latencies:
  assumes "\<forall>x \<in> set h. x = None"
  shows "latency_max_val h = 5
         \<and> build_sparkline rnd h
             = Inr (replicate (30 - length h) (32, None)
                    @ replicate (length h) (9617, Some ''bold red''))
         \<and> build_sparkline rnd [] = Inr (replicate 30 (32, None))"
proof -
  have "\<not> (\<exists>v. Some v \<in> set h)" using assms by auto
  then have a: "latency_max_val h = 5" by (rule latency_max_val_none)
  have "sparkline_loop rnd (latency_max_val h) [] h
        = Inr ([] @ replicate (length h) (9617, Some ''bold red''))"
    using assms by (rule sparkline_loop_all_dropped)
  then have b: "build_sparkline rnd h
             = Inr (replicate (30 - length h) (32, None)
                    @ replicate (length h) (9617, Some ''bold red''))"
    using build_sparkline_padded [of rnd h] by simp
  have c: "build_sparkline rnd [] = Inr (replicate 30 (32, None))"
    using build_sparkline_padded [of rnd "[]" "[]"] by simp
  from a b c show ?thesis by simp
qed

theorem sparkline_total_without_latencies_witness:
  "latency_max_val [None, None] = 5
   \<and> build_sparkline (\<lambda>x. x) [None, None]
       = Inr (replicate 28 (32, None) @ [(9617, Some ''bold red''), (9617, Some ''bold red'')])"
proof -
  have h: "\<forall>x \<in> set [None, None :: pyfloat option]. x = None" by simp
  from sparkline_total_without_latencies [OF h, of "\<lambda>x. x"] show ?thesis
    by (simp add: numeral_2_eq_2)
qed

section \<open>Properties of the number formatting\<close>

lemma show_nat_nonempty: "show_nat n \<noteq> []"
  by (subst show_nat.simps) simp

lemma show_nat_digits: "c \<in> set (show_nat n) \<Longrightarrow> \<exists>d < 10. c = digit_char d"
proof (induction n rule: show_nat.induct)
  case (1 n)
  show ?case
  proof (cases "n < 10")
    case True
    with "1.prems" show ?thesis by (subst (asm) show_nat.simps) auto
  next
    case False
    from "1.prems" have "c \<in> set (show_nat (n div 10)) \<or> c = digit_char (n mod 10)"
      by (subst (asm) show_nat.simps) (auto simp add: False)
    then show ?thesis
    proof
      assume "c \<in> set (show_nat (n div 10))"
      with "1.IH" False show ?thesis by simp
    next
      assume "c = digit_char (n mod 10)"
      moreover have "n mod 10 < 10" by simp
      ultimately show ?thesis by blast
    qed
  qed
qed

lemma digits_value_snoc:
  "digits_value (ds @ [c]) = 10 * digits_value ds + (of_char c - 48)"
  by (simp add: digits_value_def)

lemma of_char_digit: "d < 10 \<Longrightarrow> (of_char (digit_char d) :: nat) = 48 + d"
proof -
  assume "d < 10"
  then have "d \<in> {0, 1, 2, 3, 4, 5, 6, 7, 8, 9}" by auto
  then show ?thesis by (auto simp: digit_char_def)
qed

lemma digits_value_show_nat: "digits_value (show_nat n) = n"
proof (induction n rule: show_nat.induct)
  case (1 n)
  show ?case
  proof (cases "n < 10")
    case True
    then have "show_nat n = [digit_char n]" by (subst show_nat.simps) simp
    with True show ?thesis by (simp add: digits_value_def of_char_digit)
  next
    case False
    then have "show_nat n = show_nat (n div 10) @ [digit_char (n mod 10)]"
      by (subst show_nat.simps) simp
    moreover have "digits_value (show_nat (n div 10)) = n div 10" using "1.IH" False by simp
    ultimately show ?thesis by (simp add: digits_value_snoc of_char_digit)
  qed
qed

lemma round_half_even_near:
  assumes "0 \<le> y"
  shows "\<bar>of_nat (round_half_even y) - y\<bar> \<le> 1 / 2"
proof -
  define f where "f = \<lfloor>y\<rfloor>"
  have f0: "0 \<le> f" using assms by (simp add: f_def)
  have lo: "of_int f \<le> y" and hi: "y < of_int f + 1"
    unfolding f_def by linarith+
  consider "y - of_int f < 1 / 2" | "y - of_int f > 1 / 2" | "y - of_int f = 1 / 2" by linarith
  then show ?thesis
  proof cases
    case 1
    then have "round_half_even y = nat f" by (simp add: round_half_even_def f_def Let_def)
    with f0 lo 1 show ?thesis by simp
  next
    case 2
    then have "round_half_even y = nat (f + 1)" by (simp add: round_half_even_def f_def Let_def)
    with f0 hi 2 show ?thesis by simp
  next
    case 3
    then have "round_half_even y = nat f \<or> round_half_even y = nat (f + 1)"
      by (simp add: round_half_even_def f_def Let_def)
    with f0 3 show ?thesis by auto
  qed
qed

lemma format_f_0: "0 \<le> x \<Longrightarrow> format_f 0 x = show_nat (round_half_even x)"
  by (simp add: format_f_def Let_def)

lemma format_f_1:
  "0 \<le> x \<Longrightarrow>
   format_f 1 x = show_nat (round_half_even (x * 10) div 10) @ ''.''
                  @ [digit_char (round_half_even (x * 10) mod 10)]"
proof -
  assume x: "0 \<le> x"
  have "show_nat (round_half_even (x * 10) mod 10) = [digit_char (round_half_even (x * 10) mod 10)]"
    by (subst show_nat.simps) simp
  with x show ?thesis by (simp add: format_f_def Let_def)
qed




lemma format_bytes_examples:
  "format_bytes 0 = ''0B'' \<and> format_bytes 1536 = ''2K''
   \<and> format_bytes 5242880 = ''5M'' \<and> format_bytes 2147483648 = ''2.0G''"
  by (simp add: format_bytes_def format_f_def round_half_even_def show_nat.simps digit_char_def
      Let_def floor_rat_numeral)

text \<open>
  C8. \<open>format_bytes\<close> gives \<open>0B\<close>, \<open>2K\<close>, \<open>5M\<close> and \<open>2.0G\<close> on 0, 1536, 5242880 and
  2147483648. In general the suffix changes at the powers of 1024: below 1024 the
  result is the nearest integer to the value followed by \<open>B\<close>, from 1024 the nearest
  integer to the value divided by 1024 followed by \<open>K\<close>, from \<open>1024^2\<close> the same with
  \<open>1024^2\<close> and \<open>M\<close>, and from \<open>1024^3\<close> the nearest multiple of one tenth to the value
  divided by \<open>1024^3\<close>, written with one digit after the point and followed by \<open>G\<close>.
  The integers are written in decimal: reading the digits back gives the number.
\<close>

theorem format_bytes_binary_suffixes:
  "format_bytes 0 = ''0B'' \<and> format_bytes 1536 = ''2K''
   \<and> format_bytes 5242880 = ''5M'' \<and> format_bytes 2147483648 = ''2.0G''
   \<and> (0 \<le> n \<and> n < 1024 \<longrightarrow>
        (\<exists>k. format_bytes n = show_nat k @ ''B'' \<and> \<bar>of_nat k - n\<bar> \<le> 1 / 2))
   \<and> (1024 \<le> n \<and> n < 1024 ^ 2 \<longrightarrow>
        (\<exists>k. format_bytes n = show_nat k @ ''K'' \<and> \<bar>of_nat k - n / 1024\<bar> \<le> 1 / 2))
   \<and> (1024 ^ 2 \<le> n \<and> n < 1024 ^ 3 \<longrightarrow>
        (\<exists>k. format_bytes n = show_nat k @ ''M'' \<and> \<bar>of_nat k - n / 1024 ^ 2\<bar> \<le> 1 / 2))
   \<and> (1024 ^ 3 \<le> n \<longrightarrow>
        (\<exists>k d. d < 10 \<and> format_bytes n = show_nat k @ ''.'' @ [digit_char d] @ ''G''
           \<and> \<bar>of_nat (10 * k + d) / 10 - n / 1024 ^ 3\<bar> \<le> 1 / 20))
   \<and> digits_value (show_nat m) = m"
proof -
  have b: "0 \<le> n \<and> n < 1024 \<longrightarrow>
        (\<exists>k. format_bytes n = show_nat k @ ''B'' \<and> \<bar>of_nat k - n\<bar> \<le> 1 / 2)"
  proof
    assume a: "0 \<le> n \<and> n < 1024"
    then have "format_bytes n = show_nat (round_half_even n) @ ''B''"
      by (simp add: format_bytes_def format_f_0)
    with round_half_even_near [of n] a show
      "\<exists>k. format_bytes n = show_nat k @ ''B'' \<and> \<bar>of_nat k - n\<bar> \<le> 1 / 2" by blast
  qed
  have k: "1024 \<le> n \<and> n < 1024 ^ 2 \<longrightarrow>
        (\<exists>k. format_bytes n = show_nat k @ ''K'' \<and> \<bar>of_nat k - n / 1024\<bar> \<le> 1 / 2)"
  proof
    assume a: "1024 \<le> n \<and> n < 1024 ^ 2"
    then have "format_bytes n = show_nat (round_half_even (n / 1024)) @ ''K''"
      by (simp add: format_bytes_def format_f_0)
    moreover have "0 \<le> n / 1024" using a by simp
    ultimately show "\<exists>k. format_bytes n = show_nat k @ ''K'' \<and> \<bar>of_nat k - n / 1024\<bar> \<le> 1 / 2"
      using round_half_even_near [of "n / 1024"] by blast
  qed
  have m: "1024 ^ 2 \<le> n \<and> n < 1024 ^ 3 \<longrightarrow>
        (\<exists>k. format_bytes n = show_nat k @ ''M'' \<and> \<bar>of_nat k - n / 1024 ^ 2\<bar> \<le> 1 / 2)"
  proof
    assume a: "1024 ^ 2 \<le> n \<and> n < 1024 ^ 3"
    then have "format_bytes n = show_nat (round_half_even (n / 1024 ^ 2)) @ ''M''"
      by (simp add: format_bytes_def format_f_0)
    moreover have "0 \<le> n / 1024 ^ 2" using a by simp
    ultimately show "\<exists>k. format_bytes n = show_nat k @ ''M'' \<and> \<bar>of_nat k - n / 1024 ^ 2\<bar> \<le> 1 / 2"
      using round_half_even_near [of "n / 1024 ^ 2"] by blast
  qed
  have g: "1024 ^ 3 \<le> n \<longrightarrow>
        (\<exists>k d. d < 10 \<and> format_bytes n = show_nat k @ ''.'' @ [digit_char d] @ ''G''
           \<and> \<bar>of_nat (10 * k + d) / 10 - n / 1024 ^ 3\<bar> \<le> 1 / 20)"
  proof
    assume a: "1024 ^ 3 \<le> n"
    define x where "x = n / 1024 ^ 3"
    define r where "r = round_half_even (x * 10)"
    have x0: "0 \<le> x" using a by (simp add: x_def)
    have "format_bytes n = format_f 1 x @ ''G''" using a by (simp add: format_bytes_def x_def)
    then have f: "format_bytes n = show_nat (r div 10) @ ''.'' @ [digit_char (r mod 10)] @ ''G''"
      using format_f_1 [OF x0] by (simp add: r_def)
    have near: "\<bar>of_nat r - x * 10\<bar> \<le> 1 / 2"
      unfolding r_def using x0 by (intro round_half_even_near) simp
    have "\<bar>of_nat r / 10 - x\<bar> \<le> 1 / 20"
      using near by linarith
    moreover have "(of_nat (10 * (r div 10) + r mod 10) :: rat) = of_nat r"
      by (simp only: mult_div_mod_eq)
    ultimately have "\<bar>of_nat (10 * (r div 10) + r mod 10) / 10 - x\<bar> \<le> 1 / 20"
      by (simp only:)
    moreover have "r mod 10 < 10" by simp
    ultimately show "\<exists>k d. d < 10 \<and> format_bytes n = show_nat k @ ''.'' @ [digit_char d] @ ''G''
           \<and> \<bar>of_nat (10 * k + d) / 10 - n / 1024 ^ 3\<bar> \<le> 1 / 20"
      using f unfolding x_def by blast
  qed
  from format_bytes_examples b k m g digits_value_show_nat [of m] show ?thesis by blast
qed

theorem format_bytes_binary_suffixes_witness:
  "(0::rat) \<le> 512 \<and> (512::rat) < 1024 \<and> format_bytes 512 = ''512B''
   \<and> (1024::rat) \<le> 2560 \<and> (2560::rat) < 1024 ^ 2 \<and> format_bytes 2560 = ''2K''
   \<and> (1024::rat) ^ 2 \<le> 3670016 \<and> (3670016::rat) < 1024 ^ 3 \<and> format_bytes 3670016 = ''4M''
   \<and> (1024::rat) ^ 3 \<le> 1610612736 \<and> format_bytes 1610612736 = ''1.5G''"
proof -
  have e: "format_bytes 512 = ''512B'' \<and> format_bytes 2560 = ''2K''
           \<and> format_bytes 3670016 = ''4M'' \<and> format_bytes 1610612736 = ''1.5G''"
    by (simp add: format_bytes_def format_f_def round_half_even_def show_nat.simps digit_char_def
        Let_def floor_rat_numeral)
  have h: "(0::rat) \<le> 512 \<and> (512::rat) < 1024 \<and> (1024::rat) \<le> 2560 \<and> (2560::rat) < 1024 ^ 2
           \<and> (1024::rat) ^ 2 \<le> 3670016 \<and> (3670016::rat) < 1024 ^ 3 \<and> (1024::rat) ^ 3 \<le> 1610612736"
    by simp
  note t = format_bytes_binary_suffixes
  have "\<exists>k. format_bytes 512 = show_nat k @ ''B'' \<and> \<bar>of_nat k - 512\<bar> \<le> (1 / 2 :: rat)"
    using t [of 512 0] h by (simp only: simp_thms)
  moreover have "\<exists>k. format_bytes 2560 = show_nat k @ ''K'' \<and> \<bar>of_nat k - 2560 / 1024\<bar> \<le> (1 / 2 :: rat)"
    using t [of 2560 0] h by (simp only: simp_thms)
  moreover have "\<exists>k. format_bytes 3670016 = show_nat k @ ''M'' \<and> \<bar>of_nat k - 3670016 / 1024 ^ 2\<bar> \<le> (1 / 2 :: rat)"
    using t [of 3670016 0] h by (simp only: simp_thms)
  moreover have "\<exists>k d. d < 10 \<and> format_bytes 1610612736 = show_nat k @ ''.'' @ [digit_char d] @ ''G''
           \<and> \<bar>of_nat (10 * k + d) / 10 - 1610612736 / 1024 ^ 3\<bar> \<le> (1 / 20 :: rat)"
    using t [of 1610612736 0] h by (simp only: simp_thms)
  ultimately show ?thesis using e h by (simp only: simp_thms)
qed

section \<open>Properties of the panel\<close>

lemma alert_of_iff: "alert_of h \<longleftrightarrow> None \<in> set h"
  by (auto simp: alert_of_def drops_of_def filter_empty_conv)

lemma drops_of_card: "drops_of h = card {i. i < length h \<and> h ! i = None}"
  by (simp add: drops_of_def length_filter_conv_card)

lemma plain_append_str: "plain (append_str [] s style) = s"
  by (simp add: plain_def append_str_def comp_def)

lemma format_f_head:
  "\<exists>c cs. format_f p x = c # cs \<and> (of_char c :: nat) \<noteq> 116"
proof -
  define r where "r = round_half_even (\<bar>x\<bar> * 10 ^ p)"
  obtain d ds where sn: "show_nat (r div 10 ^ p) = d # ds"
    using show_nat_nonempty [of "r div 10 ^ p"] by (cases "show_nat (r div 10 ^ p)") auto
  then have "d \<in> set (show_nat (r div 10 ^ p))" by simp
  then obtain k where k: "k < 10" "d = digit_char k" using show_nat_digits by blast
  then have dn: "(of_char d :: nat) \<noteq> 116" by (simp add: of_char_digit)
  show ?thesis
  proof (cases "x < 0")
    case True
    then have "\<exists>cs. format_f p x = CHR ''-'' # cs"
      by (simp add: format_f_def Let_def)
    then show ?thesis by auto
  next
    case False
    then have "\<exists>cs. format_f p x = d # cs"
      using sn by (simp add: format_f_def Let_def r_def)
    with dn show ?thesis by auto
  qed
qed

lemma latest_field_timeout:
  "plain (latest_field h) = ascii ''timeout  '' \<longleftrightarrow> h = [] \<or> last h = None"
proof (cases "h = [] \<or> last h = None")
  case True
  then have "latest_field h = append_str [] (ascii ''timeout  '') ''bold red''"
    by (auto simp: latest_field_def)
  with True show ?thesis by (simp add: plain_append_str)
next
  case False
  then obtain l where l: "h \<noteq> []" "last h = Some l" by auto
  obtain c cs where f: "format_f 1 l = c # cs" and c: "(of_char c :: nat) \<noteq> 116"
    using format_f_head by blast
  have "plain (latest_field h) = ascii (ljust 9 (format_f 1 l @ ''ms''))"
    using l by (simp add: latest_field_def plain_append_str Let_def)
  then have "hd (plain (latest_field h)) = of_char c"
    unfolding f ascii_def ljust_def by simp
  moreover have "hd (ascii ''timeout  '') = 116" by (simp add: ascii_def)
  ultimately have "plain (latest_field h) \<noteq> ascii ''timeout  ''" using c by metis
  with False show ?thesis by simp
qed

lemma build_panel_content:
  assumes "rounding rnd" and "\<forall>v. Some v \<in> set h \<longrightarrow> 0 \<le> v"
  shows "\<exists>spark. build_sparkline rnd h = Inr spark
           \<and> build_panel rnd host h vl
               = Inr \<lparr>content = status_glyph h @ latest_field h @ spark @ Text (ascii ''   '')
                                @ status_phrase h @ vitals_part vl,
                       title = host, title_align = ''left'', border_style = border_of h,
                       width = PANEL_WIDTH\<rparr>"
proof -
  have pos: "0 < latency_max_val h" using latency_max_val_ge [of h] by simp
  obtain cells where "sparkline_loop rnd (latency_max_val h) [] h = Inr cells"
    using sparkline_loop_cells [OF assms(1) pos, of h "[]"] assms(2) by simp
  then have b: "build_sparkline rnd h = Inr (replicate (30 - length h) (32, None) @ cells)"
    by (rule build_sparkline_padded)
  then show ?thesis by (simp add: build_panel_def Let_def)
qed

lemma rounding_exact: "rounding exact"
  by (simp add: rounding_def exact_def)

text \<open>
  C7. The status phrase is determined by the window: \<open>waiting\<close> for the empty window,
  \<open>0% loss\<close> for a non-empty window without drops, \<open>1 drop!\<close> (followed by one blank,
  which keeps the width of the plural) for exactly one drop, and the count in decimal
  followed by \<open>drops!\<close> for two or more. The count is the number of positions of the
  window that hold a dropped sample. In the panel without a vitals line the phrase comes
  last, after three blanks.
\<close>

theorem status_phrase_cases:
  "(h = [] \<longrightarrow> status_phrase h = append_str [] (ascii ''waiting'') ''dim'')
   \<and> (h \<noteq> [] \<and> drops_of h = 0 \<longrightarrow>
        status_phrase h = append_str [] (ascii ''0% loss'') ''dim green'')
   \<and> (drops_of h = 1 \<longrightarrow>
        status_phrase h = append_str [] (ascii ''1 drop!'' @ [32]) ''bold red'')
   \<and> (2 \<le> drops_of h \<longrightarrow>
        status_phrase h = append_str [] (ascii (show_nat (drops_of h) @ '' drops!'')) ''bold red'')
   \<and> digits_value (show_nat (drops_of h)) = drops_of h
   \<and> drops_of h = card {i. i < length h \<and> h ! i = None}
   \<and> (rounding rnd \<and> (\<forall>v. Some v \<in> set h \<longrightarrow> 0 \<le> v) \<longrightarrow>
        (\<exists>p front. build_panel rnd host h None = Inr p
                  \<and> content p = front @ Text (ascii ''   '') @ status_phrase h))"
proof -
  have a: "h = [] \<longrightarrow> status_phrase h = append_str [] (ascii ''waiting'') ''dim''"
    by (simp add: status_phrase_def alert_of_def drops_of_def)
  have b: "h \<noteq> [] \<and> drops_of h = 0 \<longrightarrow>
        status_phrase h = append_str [] (ascii ''0% loss'') ''dim green''"
    by (simp add: status_phrase_def alert_of_def)
  have "show_nat 1 = ''1''" by (simp add: show_nat.simps digit_char_def)
  then have c: "drops_of h = 1 \<longrightarrow>
        status_phrase h = append_str [] (ascii ''1 drop!'' @ [32]) ''bold red''"
    by (simp add: status_phrase_def alert_of_def ascii_def)
  have d: "2 \<le> drops_of h \<longrightarrow>
        status_phrase h = append_str [] (ascii (show_nat (drops_of h) @ '' drops!'')) ''bold red''"
    by (simp add: status_phrase_def alert_of_def Let_def)
  have e: "rounding rnd \<and> (\<forall>v. Some v \<in> set h \<longrightarrow> 0 \<le> v) \<longrightarrow>
        (\<exists>p front. build_panel rnd host h None = Inr p
                  \<and> content p = front @ Text (ascii ''   '') @ status_phrase h)"
  proof
    assume hyp: "rounding rnd \<and> (\<forall>v. Some v \<in> set h \<longrightarrow> 0 \<le> v)"
    then obtain spark where
      "build_panel rnd host h None
               = Inr \<lparr>content = status_glyph h @ latest_field h @ spark @ Text (ascii ''   '')
                                @ status_phrase h @ vitals_part None,
                       title = host, title_align = ''left'', border_style = border_of h,
                       width = PANEL_WIDTH\<rparr>"
      using build_panel_content [of rnd h host None] by blast
    then have "build_panel rnd host h None
               = Inr \<lparr>content = (status_glyph h @ latest_field h @ spark) @ Text (ascii ''   '')
                                @ status_phrase h,
                       title = host, title_align = ''left'', border_style = border_of h,
                       width = PANEL_WIDTH\<rparr>"
      by (simp add: vitals_part_def)
    then show "\<exists>p front. build_panel rnd host h None = Inr p
                  \<and> content p = front @ Text (ascii ''   '') @ status_phrase h"
      by (metis panel.select_convs(1))
  qed
  from a b c d e digits_value_show_nat [of "drops_of h"] drops_of_card [of h]
  show ?thesis by blast
qed

theorem status_phrase_cases_witness:
  "status_phrase [] = append_str [] (ascii ''waiting'') ''dim''
   \<and> [Some 20 :: pyfloat option] \<noteq> [] \<and> drops_of [Some 20] = 0
   \<and> plain (status_phrase [Some 20]) = ascii ''0% loss''
   \<and> drops_of [Some 20, None] = 1
   \<and> plain (status_phrase [Some 20, None]) = ascii ''1 drop! ''
   \<and> 2 \<le> drops_of [None, Some 3, None]
   \<and> plain (status_phrase [None, Some 3, None]) = ascii ''2 drops!''
   \<and> rounding exact \<and> (0 :: pyfloat) \<le> 20
   \<and> (\<exists>p front. build_panel exact [] [Some 20, None] None = Inr p
          \<and> content p = front @ Text (ascii ''   '') @ status_phrase [Some 20, None])"
proof -
  note t = status_phrase_cases
  have d: "drops_of [Some 20] = 0 \<and> drops_of [Some 20, None] = 1 \<and> drops_of [None, Some 3, None] = 2"
    by (simp add: drops_of_def)
  have s2: "show_nat 2 = ''2''" by (simp add: show_nat.simps digit_char_def)
  have h: "\<forall>v. Some v \<in> set [Some 20, None :: pyfloat option] \<longrightarrow> 0 \<le> v" by auto
  have a: "status_phrase [] = append_str [] (ascii ''waiting'') ''dim''"
    using t [of "[]" exact "[]"] by simp
  have b: "plain (status_phrase [Some 20]) = ascii ''0% loss''"
    using t [of "[Some 20]" exact "[]"] d by (simp add: plain_append_str)
  have c: "plain (status_phrase [Some 20, None]) = ascii ''1 drop! ''"
    using t [of "[Some 20, None]" exact "[]"] d by (simp add: plain_append_str ascii_def)
  have e: "plain (status_phrase [None, Some 3, None]) = ascii ''2 drops!''"
    using t [of "[None, Some 3, None]" exact "[]"] d s2 by (simp add: plain_append_str)
  have f: "\<exists>p front. build_panel exact [] [Some 20, None] None = Inr p
          \<and> content p = front @ Text (ascii ''   '') @ status_phrase [Some 20, None]"
    using t [of "[Some 20, None]" exact "[]"] rounding_exact h by blast
  have g: "[Some 20 :: pyfloat option] \<noteq> [] \<and> (2 :: nat) \<le> 2 \<and> (0 :: pyfloat) \<le> 20" by simp
  show ?thesis
    apply (intro conjI)
              apply (rule a)
             apply simp
            apply (simp add: d)
           apply (rule b)
          apply (simp add: d)
         apply (rule c)
        apply (simp add: d)
       apply (rule e)
      apply (rule rounding_exact)
     apply simp
    apply (rule f)
    done
qed

text \<open>
  Against C6 as stated: for the empty window, which \<open>main\<close> renders before the first
  tick (line 243), \<open>latest\<close> is \<open>None\<close> (line 180) and the field shows the timeout
  placeholder although no sample has been dropped.
\<close>

theorem latest_timeout_on_empty_window_counterexample:
  "\<not> ((plain (latest_field []) = ascii ''timeout  '')
       = ([] \<noteq> ([] :: pyfloat option list) \<and> last ([] :: pyfloat option list) = None))"
  by (simp add: latest_field_def plain_append_str)

text \<open>
  C6, amended. For every window of non-negative samples the panel is built; the alert
  flag is true exactly when the window contains a dropped sample; the border is red
  exactly when the alert flag is true and green otherwise; the title is the host. The
  latest-reading field shows the timeout placeholder exactly when the window is empty or
  its most recent sample is dropped, and otherwise the latest value with one decimal
  followed by \<open>ms\<close>. This does not depend on the alert flag: the window of one drop
  followed by 20.0 has the alert flag set and shows \<open>20.0ms\<close>.
\<close>

theorem panel_alert_and_latest:
  assumes "rounding rnd" and "\<forall>v. Some v \<in> set h \<longrightarrow> 0 \<le> v"
  shows "(\<exists>p rest. build_panel rnd host h vl = Inr p
            \<and> content p = status_glyph h @ latest_field h @ rest
            \<and> (border_style p = ''red'' \<longleftrightarrow> alert_of h)
            \<and> (border_style p = ''green'' \<longleftrightarrow> \<not> alert_of h)
            \<and> title p = host)
         \<and> (alert_of h \<longleftrightarrow> None \<in> set h)
         \<and> (alert_of h \<longleftrightarrow> 0 < drops_of h)
         \<and> (plain (latest_field h) = ascii ''timeout  '' \<longleftrightarrow> h = [] \<or> last h = None)
         \<and> (\<forall>l. h \<noteq> [] \<and> last h = Some l \<longrightarrow>
               plain (latest_field h) = ascii (ljust 9 (format_f 1 l @ ''ms'')))
         \<and> alert_of [None, Some 20]
         \<and> plain (latest_field [None, Some 20]) = ascii ''20.0ms   ''"
proof -
  obtain spark where
    bp: "build_panel rnd host h vl
               = Inr \<lparr>content = status_glyph h @ latest_field h @ spark @ Text (ascii ''   '')
                                @ status_phrase h @ vitals_part vl,
                       title = host, title_align = ''left'', border_style = border_of h,
                       width = PANEL_WIDTH\<rparr>"
    using build_panel_content [OF assms, of host vl] by blast
  let ?p = "\<lparr>content = status_glyph h @ latest_field h @ spark @ Text (ascii ''   '')
                                @ status_phrase h @ vitals_part vl,
                       title = host, title_align = ''left'', border_style = border_of h,
                       width = PANEL_WIDTH\<rparr>"
  have "content ?p = status_glyph h @ latest_field h
                     @ (spark @ Text (ascii ''   '') @ status_phrase h @ vitals_part vl)"
    by simp
  moreover have "border_style ?p = ''red'' \<longleftrightarrow> alert_of h" by (simp add: border_of_def)
  moreover have "border_style ?p = ''green'' \<longleftrightarrow> \<not> alert_of h" by (simp add: border_of_def)
  moreover have "title ?p = host" by simp
  ultimately have a: "\<exists>p rest. build_panel rnd host h vl = Inr p
            \<and> content p = status_glyph h @ latest_field h @ rest
            \<and> (border_style p = ''red'' \<longleftrightarrow> alert_of h)
            \<and> (border_style p = ''green'' \<longleftrightarrow> \<not> alert_of h)
            \<and> title p = host"
    using bp by blast
  have b: "alert_of h \<longleftrightarrow> 0 < drops_of h" by (simp add: alert_of_def)
  have c: "\<forall>l. h \<noteq> [] \<and> last h = Some l \<longrightarrow>
               plain (latest_field h) = ascii (ljust 9 (format_f 1 l @ ''ms''))"
    by (simp add: latest_field_def plain_append_str Let_def)
  have d: "alert_of [None, Some 20]" by (simp add: alert_of_def drops_of_def)
  have "format_f 1 20 = ''20.0''"
    by (simp add: format_f_def round_half_even_def show_nat.simps digit_char_def Let_def)
  then have "ljust 9 (format_f 1 20 @ ''ms'') = ''20.0ms   ''"
    by (simp add: ljust_def numeral_3_eq_3)
  then have e: "plain (latest_field [None, Some 20]) = ascii ''20.0ms   ''"
    unfolding latest_field_def Let_def by (simp add: plain_append_str)
  from a b c d e alert_of_iff [of h] latest_field_timeout [of h] show ?thesis by blast
qed

theorem panel_alert_and_latest_witness:
  "rounding exact \<and> (0 :: pyfloat) \<le> 20
   \<and> alert_of [None, Some 20] \<and> None \<in> set [None, Some 20 :: pyfloat option]
   \<and> [None, Some 20 :: pyfloat option] \<noteq> [] \<and> last [None, Some 20 :: pyfloat option] = Some 20
   \<and> plain (latest_field [None, Some 20]) = ascii ''20.0ms   ''
   \<and> plain (latest_field [None, Some 20]) \<noteq> ascii ''timeout  ''
   \<and> (\<exists>p rest. build_panel exact (ascii ''8.8.8.8'') [None, Some 20] None = Inr p
          \<and> content p = status_glyph [None, Some 20] @ latest_field [None, Some 20] @ rest
          \<and> (border_style p = ''red'' \<longleftrightarrow> alert_of [None, Some 20])
          \<and> (border_style p = ''green'' \<longleftrightarrow> \<not> alert_of [None, Some 20])
          \<and> title p = ascii ''8.8.8.8'')"
proof -
  have h: "\<forall>v. Some v \<in> set [None, Some 20 :: pyfloat option] \<longrightarrow> 0 \<le> v" by auto
  note t = panel_alert_and_latest [OF rounding_exact h, of "ascii ''8.8.8.8''" None]
  note t1 = t [THEN conjunct1]
  note t2 = t [THEN conjunct2, THEN conjunct1]
  note t4 = t [THEN conjunct2, THEN conjunct2, THEN conjunct2, THEN conjunct1]
  note t7 = t [THEN conjunct2, THEN conjunct2, THEN conjunct2, THEN conjunct2, THEN conjunct2,
      THEN conjunct2]
  have a: "alert_of [None, Some 20]" using t2 by simp
  have c: "plain (latest_field [None, Some 20]) \<noteq> ascii ''timeout  ''"
    using t4 by simp
  have l: "None \<in> set [None, Some 20 :: pyfloat option]
           \<and> [None, Some 20 :: pyfloat option] \<noteq> []
           \<and> last [None, Some 20 :: pyfloat option] = Some 20"
    by simp
  show ?thesis
    apply (intro conjI)
              apply (rule rounding_exact)
             apply simp
            apply (rule a)
           apply simp
          apply simp
         apply simp
        apply (rule t7)
       apply (rule c)
      apply (rule t1)
    done
qed

section \<open>Properties of the ping\<close>






lemma span_stop:
  "list_all P xs \<Longrightarrow> ys = [] \<or> \<not> P (hd ys) \<Longrightarrow>
   takeWhile P (xs @ ys) = xs \<and> dropWhile P (xs @ ys) = ys"
proof (induction xs)
  case Nil
  then show ?case by (cases ys) auto
next
  case (Cons x xs)
  then show ?case by simp
qed

lemma m_not_digit: "\<not> is_digit (CHR ''m'')" by (simp add: is_digit_def)
lemma m_not_space: "\<not> is_space (CHR ''m'')" by (simp add: is_space_def)
lemma space_not_digit: "is_space c \<Longrightarrow> \<not> is_digit c"
  by (auto simp: is_space_def is_digit_def)
lemma dot_not_space: "\<not> is_space (CHR ''.'')" by (simp add: is_space_def)

lemma tail_not_digit:
  "list_all is_space ws \<Longrightarrow> ws @ ''ms'' @ post = [] \<or> \<not> is_digit (hd (ws @ ''ms'' @ post))"
  by (cases ws) (auto simp: m_not_digit space_not_digit)

lemma tail_not_dot:
  "list_all is_space ws \<Longrightarrow> hd (ws @ ''ms'' @ post) \<noteq> CHR ''.''"
  by (cases ws) (auto simp: dot_not_space)

lemma pattern_at_match_here:
  assumes "pattern_at s g"
  shows "match_here s = Some g"
proof -
  from assms obtain d1 dot d2 ws post where
    s: "s = ''time='' @ d1 @ dot @ d2 @ ws @ ''ms'' @ post" and ne: "d1 \<noteq> []"
    and dg1: "list_all is_digit d1" and dot: "dot = [] \<or> dot = ''.''"
    and dg2: "list_all is_digit d2" and sp: "list_all is_space ws" and g: "g = d1 @ dot @ d2"
    unfolding pattern_at_def by blast
  let ?tail = "ws @ ''ms'' @ post"
  have pre: "take 5 s = ''time=''" and r0: "drop 5 s = d1 @ dot @ d2 @ ?tail"
    by (simp_all add: s)
  have ws: "dropWhile is_space ?tail = ''ms'' @ post"
    using span_stop [OF sp, of "''ms'' @ post"] m_not_space by simp
  from dot show ?thesis
  proof
    assume d: "dot = []"
    have dg: "list_all is_digit (d1 @ d2)" using dg1 dg2 by simp
    have sp1: "takeWhile is_digit ((d1 @ d2) @ ?tail) = d1 @ d2
          \<and> dropWhile is_digit ((d1 @ d2) @ ?tail) = ?tail"
      using span_stop [OF dg tail_not_digit [OF sp, of post]] by simp
    have nd: "hd ?tail \<noteq> CHR ''.''" using tail_not_dot [OF sp] .
    have tw2: "takeWhile is_digit ?tail = [] \<and> dropWhile is_digit ?tail = ?tail"
      using span_stop [of is_digit "[]" ?tail] tail_not_digit [OF sp, of post] by simp
    have ne': "d1 @ d2 \<noteq> []" using ne by simp
    show ?thesis
      unfolding match_here_def Let_def pre r0 d
      using sp1 nd tw2 ws ne' g d by simp
  next
    assume d: "dot = ''.''"
    have sp1: "takeWhile is_digit (d1 @ ''.'' @ d2 @ ?tail) = d1
          \<and> dropWhile is_digit (d1 @ ''.'' @ d2 @ ?tail) = ''.'' @ d2 @ ?tail"
      using span_stop [OF dg1, of "''.'' @ d2 @ ?tail"] by (simp add: is_digit_def)
    have sp2: "takeWhile is_digit (d2 @ ?tail) = d2 \<and> dropWhile is_digit (d2 @ ?tail) = ?tail"
      using span_stop [OF dg2 tail_not_digit [OF sp, of post]] by simp
    show ?thesis
      unfolding match_here_def Let_def pre r0 d
      using sp1 sp2 ws ne g d by simp
  qed
qed


lemma match_here_pattern_at:
  assumes "match_here s = Some g"
  shows "pattern_at s g"
proof -
  define r0 where "r0 = drop 5 s"
  define d1 where "d1 = takeWhile is_digit r0"
  define r1 where "r1 = dropWhile is_digit r0"
  define dot where "dot = (if r1 \<noteq> [] \<and> hd r1 = CHR ''.'' then ''.'' else [])"
  define r2 where "r2 = drop (length dot) r1"
  define d2 where "d2 = takeWhile is_digit r2"
  define r3 where "r3 = dropWhile is_digit r2"
  define ws where "ws = takeWhile is_space r3"
  define r4 where "r4 = dropWhile is_space r3"
  have unf: "match_here s =
     (if take 5 s = ''time=''
      then (if d1 \<noteq> [] \<and> take 2 r4 = ''ms'' then Some (d1 @ dot @ d2) else None)
      else None)"
    unfolding match_here_def Let_def r0_def d1_def r1_def dot_def r2_def d2_def r3_def r4_def
    by (rule refl)
  from assms unf have pre: "take 5 s = ''time=''" and ne: "d1 \<noteq> []"
    and ms: "take 2 r4 = ''ms''" and g: "g = d1 @ dot @ d2"
    by (auto split: if_splits)
  have s: "s = ''time='' @ r0" using pre append_take_drop_id [of 5 s] by (simp add: r0_def)
  have r0: "r0 = d1 @ r1" by (simp add: d1_def r1_def)
  have r1: "r1 = dot @ r2"
  proof (cases "r1 \<noteq> [] \<and> hd r1 = CHR ''.''")
    case True
    then obtain t where "r1 = CHR ''.'' # t" by (cases r1) auto
    with True show ?thesis by (simp add: dot_def r2_def)
  next
    case False
    then show ?thesis by (auto simp: dot_def r2_def)
  qed
  have r2: "r2 = d2 @ r3" by (simp add: d2_def r3_def)
  have r3: "r3 = ws @ r4" by (simp add: ws_def r4_def)
  have r4: "r4 = ''ms'' @ drop 2 r4" using ms append_take_drop_id [of 2 r4] by simp
  have dig1: "list_all is_digit d1" unfolding d1_def list_all_iff by (auto dest: set_takeWhileD)
  have dig2: "list_all is_digit d2" unfolding d2_def list_all_iff by (auto dest: set_takeWhileD)
  have sp: "list_all is_space ws" unfolding ws_def list_all_iff by (auto dest: set_takeWhileD)
  have dd: "dot = [] \<or> dot = ''.''" by (simp add: dot_def)
  have "s = ''time='' @ d1 @ dot @ d2 @ ws @ ''ms'' @ drop 2 r4"
    using s r0 r1 r2 r3 r4 by simp
  with ne dig1 dig2 sp dd g show ?thesis unfolding pattern_at_def by blast
qed

lemma match_here_iff: "match_here s = Some g \<longleftrightarrow> pattern_at s g"
  using match_here_pattern_at pattern_at_match_here by blast

lemma re_search_leftmost:
  "re_search s = Some g \<longleftrightarrow>
     (\<exists>k \<le> length s. pattern_at (drop k s) g \<and> (\<forall>j < k. \<forall>g'. \<not> pattern_at (drop j s) g'))"
proof (induction s)
  case Nil
  show ?case by (simp add: match_here_iff)
next
  case (Cons c cs)
  show ?case
  proof (cases "match_here (c # cs)")
    case (Some g0)
    then have p0: "pattern_at (c # cs) g0" by (simp add: match_here_iff)
    have lhs: "re_search (c # cs) = Some g \<longleftrightarrow> g0 = g" using Some by simp
    have rhs: "(\<exists>k \<le> length (c # cs). pattern_at (drop k (c # cs)) g
                 \<and> (\<forall>j < k. \<forall>g'. \<not> pattern_at (drop j (c # cs)) g')) \<longleftrightarrow> g0 = g"
    proof
      assume "\<exists>k \<le> length (c # cs). pattern_at (drop k (c # cs)) g
                 \<and> (\<forall>j < k. \<forall>g'. \<not> pattern_at (drop j (c # cs)) g')"
      then obtain k where k: "pattern_at (drop k (c # cs)) g"
        "\<forall>j < k. \<forall>g'. \<not> pattern_at (drop j (c # cs)) g'" by blast
      have "k = 0"
      proof (rule ccontr)
        assume "k \<noteq> 0"
        then have "0 < k" by simp
        with k(2) have "\<not> pattern_at (drop 0 (c # cs)) g0" by blast
        with p0 show False by simp
      qed
      with k(1) have "match_here (c # cs) = Some g" by (simp add: match_here_iff)
      with Some show "g0 = g" by simp
    next
      assume "g0 = g"
      with p0 have "pattern_at (drop 0 (c # cs)) g \<and> (\<forall>j < 0. \<forall>g'. \<not> pattern_at (drop j (c # cs)) g')"
        by simp
      then show "\<exists>k \<le> length (c # cs). pattern_at (drop k (c # cs)) g
                 \<and> (\<forall>j < k. \<forall>g'. \<not> pattern_at (drop j (c # cs)) g')"
        by blast
    qed
    from lhs rhs show ?thesis by simp
  next
    case None
    then have n0: "\<And>g'. \<not> pattern_at (c # cs) g'" by (simp add: match_here_iff [symmetric])
    have lhs: "re_search (c # cs) = Some g \<longleftrightarrow> re_search cs = Some g" using None by simp
    have rhs: "(\<exists>k \<le> length (c # cs). pattern_at (drop k (c # cs)) g
                 \<and> (\<forall>j < k. \<forall>g'. \<not> pattern_at (drop j (c # cs)) g'))
           \<longleftrightarrow> (\<exists>k \<le> length cs. pattern_at (drop k cs) g
                 \<and> (\<forall>j < k. \<forall>g'. \<not> pattern_at (drop j cs) g'))"
    proof
      assume "\<exists>k \<le> length (c # cs). pattern_at (drop k (c # cs)) g
                 \<and> (\<forall>j < k. \<forall>g'. \<not> pattern_at (drop j (c # cs)) g')"
      then obtain k where k: "k \<le> length (c # cs)" "pattern_at (drop k (c # cs)) g"
        "\<forall>j < k. \<forall>g'. \<not> pattern_at (drop j (c # cs)) g'" by blast
      from k(2) n0 have "k \<noteq> 0" by (cases k) auto
      then obtain k' where k': "k = Suc k'" by (cases k) auto
      have "k' \<le> length cs" using k(1) k' by simp
      moreover have "pattern_at (drop k' cs) g" using k(2) k' by simp
      moreover have "\<forall>j < k'. \<forall>g'. \<not> pattern_at (drop j cs) g'"
      proof (intro allI impI)
        fix j g'
        assume "j < k'"
        then have "Suc j < k" using k' by simp
        with k(3) have "\<not> pattern_at (drop (Suc j) (c # cs)) g'" by blast
        then show "\<not> pattern_at (drop j cs) g'" by simp
      qed
      ultimately show "\<exists>k \<le> length cs. pattern_at (drop k cs) g
                 \<and> (\<forall>j < k. \<forall>g'. \<not> pattern_at (drop j cs) g')" by blast
    next
      assume "\<exists>k \<le> length cs. pattern_at (drop k cs) g
                 \<and> (\<forall>j < k. \<forall>g'. \<not> pattern_at (drop j cs) g')"
      then obtain k where k: "k \<le> length cs" "pattern_at (drop k cs) g"
        "\<forall>j < k. \<forall>g'. \<not> pattern_at (drop j cs) g'" by blast
      have "Suc k \<le> length (c # cs)" using k(1) by simp
      moreover have "pattern_at (drop (Suc k) (c # cs)) g" using k(2) by simp
      moreover have "\<forall>j < Suc k. \<forall>g'. \<not> pattern_at (drop j (c # cs)) g'"
      proof (intro allI impI)
        fix j g'
        assume j: "j < Suc k"
        show "\<not> pattern_at (drop j (c # cs)) g'"
        proof (cases j)
          case 0
          then show ?thesis using n0 by simp
        next
          case (Suc j')
          with j have "j' < k" by simp
          with k(3) have "\<not> pattern_at (drop j' cs) g'" by blast
          with Suc show ?thesis by simp
        qed
      qed
      ultimately show "\<exists>k \<le> length (c # cs). pattern_at (drop k (c # cs)) g
                 \<and> (\<forall>j < k. \<forall>g'. \<not> pattern_at (drop j (c # cs)) g')" by blast
    qed
    from lhs rhs Cons.IH show ?thesis by simp
  qed
qed




end
